theory Spec2Isabelle
  imports Main "HOL-Library.Multiset"
begin

section \<open>The page allocation simulator (simulator.py)\<close>

text \<open>
  The simulator has two objects, a \<^verbatim>\<open>BuddySystem\<close> and an \<^verbatim>\<open>LRU\<close> that holds a
  reference to the same buddy system the event loop uses. Both are modelled by one
  record, so that every method sees the mutations of every other one. Python
  exceptions are values of \<open>error\<close>; a method that may raise returns \<open>error + 'a\<close>.

  Sequence numbers and positions are natural numbers (the trace holds non-negative
  integers); a page slot holds \<open>-1\<close> (free) or the owning sequence number, and an entry
  of an allocation record holds a page id or \<open>-1\<close>, so both are integers.
  The attribute \<^verbatim>\<open>buddy_count\<close> is assigned once in \<^verbatim>\<open>__init__\<close> to the number of
  buddy lists, and no list is ever added or removed: it is \<open>length (buddy_lists s)\<close>.
\<close>

datatype error = ValueError | KeyError | IndexError | UnboundLocalError

type_synonym node = "int \<times> nat \<times> nat"

record sim =
  buddy_lists :: "nat list list"
  pages :: "int list"
  allocated_pages :: "nat \<rightharpoonup> int list"
  active_list :: "node list"
  inactive_list :: "node list"
  size_active :: nat
  size_inactive :: nat

datatype instr = Instr string nat nat

subsection \<open>The library functions the simulator calls\<close>

text \<open>
  \<^verbatim>\<open>int(math.log2(n))\<close> and \<^verbatim>\<open>math.ceil(math.log2(n))\<close> for an integer \<open>n \<ge> 1\<close>,
  by their mathematical value (the floating point result is exact for every page
  count an array can have); \<^verbatim>\<open>math.log2(0)\<close> raises \<^verbatim>\<open>ValueError\<close>, which the callers
  model. \<open>bin_rev n\<close> is \<^verbatim>\<open>bin(n)[2:][::-1]\<close>: the binary digits of \<open>n\<close>, least
  significant first.
\<close>

fun floor_log2 :: "nat \<Rightarrow> nat" where
  "floor_log2 n = (if n < 2 then 0 else Suc (floor_log2 (n div 2)))"

fun ceil_log2 :: "nat \<Rightarrow> nat" where
  "ceil_log2 n = (if n < 2 then 0 else Suc (ceil_log2 ((n + 1) div 2)))"

fun bin_rev :: "nat \<Rightarrow> string" where
  "bin_rev n =
     (if n < 2 then [if n = 0 then CHR ''0'' else CHR ''1'']
      else (if even n then CHR ''0'' else CHR ''1'') # bin_rev (n div 2))"

subsection \<open>BuddySystem\<close>

definition init :: "nat \<Rightarrow> nat \<Rightarrow> nat \<Rightarrow> error + sim" where
  "init MAX_PAGENO sa si =
     (if MAX_PAGENO = 0 then Inl ValueError
      else
        let buddy_count = floor_log2 MAX_PAGENO + 1 in
        Inr \<lparr>buddy_lists = (replicate buddy_count [])[buddy_count - 1 := [0]],
             pages = replicate MAX_PAGENO (- 1),
             allocated_pages = Map.empty,
             active_list = [],
             inactive_list = [],
             size_active = sa,
             size_inactive = si\<rparr>)"

definition access :: "sim \<Rightarrow> nat \<Rightarrow> nat \<Rightarrow> int" where
  "access s seqno num =
     (case allocated_pages s seqno of
        None \<Rightarrow> - 1
      | Some alloc_ids \<Rightarrow>
          if alloc_ids \<noteq> [] \<and> length alloc_ids > num then alloc_ids ! num else - 1)"

definition count_free_pages :: "sim \<Rightarrow> int" where
  "count_free_pages s = sum_list (map (\<lambda>x. if x = - 1 then 1 else 0) (pages s))"

text \<open>
  \<^verbatim>\<open>partition_and_return\<close>: the loop over the digits, \<open>j\<close> the position of the digit.
  Appending to a buddy list that does not exist raises \<^verbatim>\<open>IndexError\<close>.
\<close>

fun partition_loop :: "string \<Rightarrow> nat \<Rightarrow> nat \<Rightarrow> nat list list \<Rightarrow> error + nat list list" where
  "partition_loop [] j start_id bl = Inr bl"
| "partition_loop (c # cs) j start_id bl =
     (if c = CHR ''1'' then
        (if j < length bl
         then partition_loop cs (Suc j) (start_id + 2 ^ j) (bl[j := bl ! j @ [start_id]])
         else Inl IndexError)
      else partition_loop cs (Suc j) start_id bl)"

definition partition_and_return :: "nat \<Rightarrow> nat \<Rightarrow> nat list list \<Rightarrow> error + nat list list" where
  "partition_and_return start_id len bl = partition_loop (bin_rev len) 0 start_id bl"

text \<open>
  \<^verbatim>\<open>update_buddy_lists\<close>: the scan over the page slots with its three variables
  \<open>p1\<close>, \<open>p2\<close>, \<open>started\<close>. Both counters only grow and \<open>p1 \<le> p2\<close> throughout, so
  \<open>p2 - p1\<close> never truncates.
\<close>

fun scan_pages :: "int list \<Rightarrow> nat \<Rightarrow> nat \<Rightarrow> bool \<Rightarrow> nat list list
    \<Rightarrow> error + (nat \<times> nat \<times> bool \<times> nat list list)" where
  "scan_pages [] p1 p2 started bl = Inr (p1, p2, started, bl)"
| "scan_pages (x # xs) p1 p2 started bl =
     (if x < 0 then scan_pages xs p1 (p2 + 1) True bl
      else if started then
        (case partition_and_return p1 (p2 - p1) bl of
           Inl e \<Rightarrow> Inl e
         | Inr bl' \<Rightarrow> scan_pages xs (p2 + 1) (p2 + 1) True bl')
      else scan_pages xs (p1 + 1) (p2 + 1) False bl)"

definition rebuild :: "int list \<Rightarrow> nat \<Rightarrow> error + nat list list" where
  "rebuild pgs buddy_count =
     (case scan_pages pgs 0 0 False (replicate buddy_count []) of
        Inl e \<Rightarrow> Inl e
      | Inr (p1, p2, started, bl) \<Rightarrow>
          if started then partition_and_return p1 (p2 - p1) bl else Inr bl)"

definition update_buddy_lists :: "sim \<Rightarrow> error + sim" where
  "update_buddy_lists s =
     (case rebuild (pages s) (length (buddy_lists s)) of
        Inl e \<Rightarrow> Inl e
      | Inr bl \<Rightarrow> Inr (s\<lparr>buddy_lists := bl\<rparr>))"

text \<open>
  \<^verbatim>\<open>request_pages\<close>. \<open>mark_range\<close> is the loop that marks the pages of the block found
  (writing past the page array raises \<^verbatim>\<open>IndexError\<close>); \<open>discontiguous\<close> is the second
  loop, over the remaining page slots from index \<open>i\<close>, returning the slots and the ids
  collected.
\<close>

fun mark_range :: "nat list \<Rightarrow> int \<Rightarrow> int list \<Rightarrow> error + int list" where
  "mark_range [] v pgs = Inr pgs"
| "mark_range (p # ps) v pgs =
     (if p < length pgs then mark_range ps v (pgs[p := v]) else Inl IndexError)"

fun discontiguous :: "int list \<Rightarrow> nat \<Rightarrow> int \<Rightarrow> int \<Rightarrow> int list \<times> nat list" where
  "discontiguous [] i v rest_length = ([], [])"
| "discontiguous (x # xs) i v rest_length =
     (if x = - 1 then
        (if rest_length - 1 = 0 then (v # xs, [i])
         else (case discontiguous xs (Suc i) v (rest_length - 1) of
                 (ys, ids) \<Rightarrow> (v # ys, i # ids)))
      else (case discontiguous xs (Suc i) v rest_length of
              (ys, ids) \<Rightarrow> (x # ys, ids)))"

definition request_pages :: "nat \<Rightarrow> nat \<Rightarrow> sim \<Rightarrow> error + (int list \<times> sim)" where
  "request_pages seqno num s =
     (if num = 0 then Inl ValueError
      else
        let idx = ceil_log2 num; bl = buddy_lists s in
        case (case List.find (\<lambda>i. bl ! i \<noteq> []) [idx..<length bl] of
                Some i \<Rightarrow>
                  (let alloc_start_id = hd (bl ! i);
                       ids = [alloc_start_id..<alloc_start_id + num]
                   in case mark_range ids (int seqno) (pages s) of
                        Inl e \<Rightarrow> Inl e
                      | Inr pgs \<Rightarrow> Inr (ids, s\<lparr>buddy_lists := bl[i := tl (bl ! i)], pages := pgs\<rparr>))
              | None \<Rightarrow>
                  (case discontiguous (pages s) 0 (int seqno) (int num) of
                     (pgs, ids) \<Rightarrow> Inr (ids, s\<lparr>pages := pgs\<rparr>))) of
          Inl e \<Rightarrow> Inl e
        | Inr (ids, s1) \<Rightarrow>
            (case update_buddy_lists s1 of
               Inl e \<Rightarrow> Inl e
             | Inr s2 \<Rightarrow> Inr (map int ids, s2)))"

text \<open>
  \<^verbatim>\<open>allocate\<close>, without and with \<^verbatim>\<open>idx\<close>. With \<^verbatim>\<open>idx\<close> the right-hand side
  \<^verbatim>\<open>page_ids[-1]\<close> is evaluated first, then the record is looked up, then the entry
  is assigned.
\<close>

definition allocate :: "int list \<Rightarrow> nat \<Rightarrow> sim \<Rightarrow> sim" where
  "allocate page_ids seqno s = s\<lparr>allocated_pages := (allocated_pages s)(seqno \<mapsto> page_ids)\<rparr>"

definition allocate_idx :: "int list \<Rightarrow> nat \<Rightarrow> nat \<Rightarrow> sim \<Rightarrow> error + sim" where
  "allocate_idx page_ids seqno idx s =
     (if page_ids = [] then Inl IndexError
      else case allocated_pages s seqno of
             None \<Rightarrow> Inl KeyError
           | Some l \<Rightarrow>
               if idx < length l
               then Inr (s\<lparr>allocated_pages := (allocated_pages s)(seqno \<mapsto> l[idx := last page_ids])\<rparr>)
               else Inl IndexError)"

definition deallocate :: "nat \<Rightarrow> nat \<Rightarrow> sim \<Rightarrow> error + (int \<times> sim)" where
  "deallocate seqno num s =
     (let page_id = access s seqno num in
      case (if page_id \<ge> 0 then
              (if nat page_id < length (pages s) then
                 (case allocated_pages s seqno of
                    None \<Rightarrow> Inl KeyError
                  | Some l \<Rightarrow>
                      if num < length l
                      then Inr (s\<lparr>pages := (pages s)[nat page_id := - 1],
                                  allocated_pages := (allocated_pages s)(seqno \<mapsto> l[num := - 1])\<rparr>)
                      else Inl IndexError)
               else Inl IndexError)
            else Inr s) of
        Inl e \<Rightarrow> Inl e
      | Inr s1 \<Rightarrow>
          (case update_buddy_lists s1 of
             Inl e \<Rightarrow> Inl e
           | Inr s2 \<Rightarrow> Inr (page_id, s2)))"

subsection \<open>LRU\<close>

text \<open>
  \<^verbatim>\<open>delete\<close> iterates over a list while removing from it: the iterator keeps an
  index \<open>i\<close>, stops when \<open>i\<close> reaches the current length, and \<^verbatim>\<open>remove\<close> drops the
  first node equal to the one found.
\<close>

function delete_loop :: "nat \<Rightarrow> int \<Rightarrow> node list \<Rightarrow> node list" where
  "delete_loop i page_id xs =
     (if i < length xs then
        (if fst (xs ! i) = page_id then delete_loop (Suc i) page_id (remove1 (xs ! i) xs)
         else delete_loop (Suc i) page_id xs)
      else xs)"
  by pat_completeness auto
termination
  by (relation "measure (\<lambda>(i, page_id, xs). length xs - i)") (auto simp: length_remove1)

definition delete :: "int \<Rightarrow> sim \<Rightarrow> sim" where
  "delete page_id s =
     s\<lparr>inactive_list := delete_loop 0 page_id (inactive_list s),
       active_list := delete_loop 0 page_id (active_list s)\<rparr>"

fun first_index :: "int \<Rightarrow> node list \<Rightarrow> nat option" where
  "first_index page_id [] = None"
| "first_index page_id (n # ns) =
     (if fst n = page_id then Some 0 else map_option Suc (first_index page_id ns))"

definition find_index :: "int \<Rightarrow> sim \<Rightarrow> int \<times> int" where
  "find_index page_id s =
     (case first_index page_id (inactive_list s) of
        Some i \<Rightarrow> (0, int i)
      | None \<Rightarrow>
          (case first_index page_id (active_list s) of
             Some i \<Rightarrow> (1, int i)
           | None \<Rightarrow> (- 1, - 1)))"

definition reclaim :: "node \<Rightarrow> sim \<Rightarrow> error + sim" where
  "reclaim nd s =
     (case nd of (page_id, seqno, num) \<Rightarrow>
        (case deallocate seqno num (delete page_id s) of
           Inl e \<Rightarrow> Inl e
         | Inr (r, s') \<Rightarrow> Inr s'))"

text \<open>
  The eviction loop of \<^verbatim>\<open>insert_inactive\<close>: its number of rounds is fixed when the loop
  starts; \<^verbatim>\<open>pop(0)\<close> on an empty list raises \<^verbatim>\<open>IndexError\<close>.
\<close>

fun evict_loop :: "nat \<Rightarrow> sim \<Rightarrow> error + sim" where
  "evict_loop 0 s = Inr s"
| "evict_loop (Suc k) s =
     (case inactive_list s of
        [] \<Rightarrow> Inl IndexError
      | nd # rest \<Rightarrow>
          (case reclaim nd (s\<lparr>inactive_list := rest\<rparr>) of
             Inl e \<Rightarrow> Inl e
           | Inr s' \<Rightarrow> evict_loop k s'))"

definition insert_inactive :: "int \<Rightarrow> nat \<Rightarrow> nat \<Rightarrow> sim \<Rightarrow> error + sim" where
  "insert_inactive page_id seqno num s =
     (let s1 = s\<lparr>inactive_list := inactive_list s @ [(page_id, seqno, num)]\<rparr> in
      if length (inactive_list s1) > size_inactive s1
      then evict_loop (length (inactive_list s1) - size_inactive s1) s1
      else Inr s1)"

fun demote_loop :: "nat \<Rightarrow> sim \<Rightarrow> error + sim" where
  "demote_loop 0 s = Inr s"
| "demote_loop (Suc k) s =
     (case active_list s of
        [] \<Rightarrow> Inl IndexError
      | (page_id, seqno, num) # rest \<Rightarrow>
          (case insert_inactive page_id seqno num (s\<lparr>active_list := rest\<rparr>) of
             Inl e \<Rightarrow> Inl e
           | Inr s' \<Rightarrow> demote_loop k s'))"

definition promote :: "int \<Rightarrow> sim \<Rightarrow> error + sim" where
  "promote page_id s =
     (case find_index page_id s of (list_id, idx) \<Rightarrow>
        if list_id = 0 then
          (let i = nat idx;
               nd = inactive_list s ! i;
               s1 = s\<lparr>inactive_list := take i (inactive_list s) @ drop (Suc i) (inactive_list s),
                       active_list := active_list s @ [nd]\<rparr>
           in if length (active_list s1) > size_active s1
              then demote_loop (length (active_list s1) - size_active s1) s1
              else Inr s1)
        else Inr s)"

text \<open>
  \<^verbatim>\<open>reclaim_n_pages\<close>: the variables \<^verbatim>\<open>page_id, seqno, num\<close> are unbound until a node
  has been popped, and keep the last node popped when both lists are empty.
\<close>

fun reclaim_n_loop :: "nat \<Rightarrow> node option \<Rightarrow> sim \<Rightarrow> error + sim" where
  "reclaim_n_loop 0 cur s = Inr s"
| "reclaim_n_loop (Suc k) cur s =
     (case (case inactive_list s of
              nd # rest \<Rightarrow> (Some nd, s\<lparr>inactive_list := rest\<rparr>)
            | [] \<Rightarrow>
                (case active_list s of
                   nd # rest \<Rightarrow> (Some nd, s\<lparr>active_list := rest\<rparr>)
                 | [] \<Rightarrow> (cur, s))) of
        (None, s1) \<Rightarrow> Inl UnboundLocalError
      | (Some nd, s1) \<Rightarrow>
          (case reclaim nd s1 of
             Inl e \<Rightarrow> Inl e
           | Inr s2 \<Rightarrow> reclaim_n_loop k (Some nd) s2))"

definition reclaim_n_pages :: "nat \<Rightarrow> sim \<Rightarrow> error + sim" where
  "reclaim_n_pages n s = reclaim_n_loop n None s"

subsection \<open>The event loop\<close>

text \<open>
  In the \<^verbatim>\<open>A\<close> branch the list \<^verbatim>\<open>page_ids\<close> becomes the allocation record of
  \<^verbatim>\<open>seqno\<close> itself (the same list object), and the loop over \<^verbatim>\<open>enumerate(page_ids)\<close>
  runs while \<^verbatim>\<open>insert_inactive\<close> may evict and overwrite entries of that very list.
  \<open>insert_pages\<close> therefore reads entry \<open>idx\<close> from the current record; the first
  argument counts the rounds left (the length of the list, which never changes).
\<close>

fun insert_pages :: "nat \<Rightarrow> nat \<Rightarrow> nat \<Rightarrow> sim \<Rightarrow> error + sim" where
  "insert_pages 0 seqno idx s = Inr s"
| "insert_pages (Suc k) seqno idx s =
     (case allocated_pages s seqno of
        None \<Rightarrow> Inr s
      | Some page_ids \<Rightarrow>
          if idx < length page_ids then
            (case insert_inactive (page_ids ! idx) seqno idx s of
               Inl e \<Rightarrow> Inl e
             | Inr s' \<Rightarrow> insert_pages k seqno (Suc idx) s')
          else Inr s)"

definition reclaim_deficit :: "int \<Rightarrow> sim \<Rightarrow> error + sim" where
  "reclaim_deficit n_pages s = (if n_pages \<le> 0 then Inr s else reclaim_n_pages (nat n_pages) s)"

definition do_allocate :: "nat \<Rightarrow> nat \<Rightarrow> sim \<Rightarrow> error + sim" where
  "do_allocate seqno num s =
     (case reclaim_deficit (int num - count_free_pages s) s of
        Inl e \<Rightarrow> Inl e
      | Inr s1 \<Rightarrow>
          (case request_pages seqno num s1 of
             Inl e \<Rightarrow> Inl e
           | Inr (page_ids, s2) \<Rightarrow>
               insert_pages (length page_ids) seqno 0 (allocate page_ids seqno s2)))"

definition page_fault :: "nat \<Rightarrow> nat \<Rightarrow> sim \<Rightarrow> error + sim" where
  "page_fault seqno num s =
     (case reclaim_deficit (1 - count_free_pages s) s of
        Inl e \<Rightarrow> Inl e
      | Inr s1 \<Rightarrow>
          (case request_pages seqno 1 s1 of
             Inl e \<Rightarrow> Inl e
           | Inr (page_ids, s2) \<Rightarrow>
               (case allocate_idx page_ids seqno num s2 of
                  Inl e \<Rightarrow> Inl e
                | Inr s3 \<Rightarrow> insert_inactive (last page_ids) seqno num s3)))"

definition do_access :: "nat \<Rightarrow> nat \<Rightarrow> sim \<Rightarrow> error + sim" where
  "do_access seqno num s =
     (let page_id = access s seqno num in
      if page_id \<ge> 0 then promote page_id s else page_fault seqno num s)"

definition do_free :: "nat \<Rightarrow> nat \<Rightarrow> sim \<Rightarrow> error + sim" where
  "do_free seqno num s =
     (case deallocate seqno num s of
        Inl e \<Rightarrow> Inl e
      | Inr (page_id, s1) \<Rightarrow> Inr (delete page_id s1))"

fun process :: "instr \<Rightarrow> sim \<Rightarrow> error + sim" where
  "process (Instr action seqno num) s =
     (if action = ''A'' then do_allocate seqno num s
      else if action = ''X'' then do_access seqno num s
      else if action = ''F'' then do_free seqno num s
      else Inr s)"

fun run :: "instr list \<Rightarrow> sim \<Rightarrow> error + sim" where
  "run [] s = Inr s"
| "run (i # is) s = (case process i s of Inl e \<Rightarrow> Inl e | Inr s' \<Rightarrow> run is s')"

definition simulate :: "nat \<Rightarrow> nat \<Rightarrow> nat \<Rightarrow> instr list \<Rightarrow> error + sim" where
  "simulate MAX_PAGENO sa si instrs =
     (case init MAX_PAGENO sa si of Inl e \<Rightarrow> Inl e | Inr s \<Rightarrow> run instrs s)"

section \<open>The properties\<close>

text \<open>Both lists of the reclaimer are within their configured capacities.\<close>

definition within_capacity :: "sim \<Rightarrow> bool" where
  "within_capacity s \<longleftrightarrow>
     length (active_list s) \<le> size_active s \<and> length (inactive_list s) \<le> size_inactive s"

text \<open>
  The page ids that the buddy lists cover: list \<open>i\<close> holds the start ids of blocks of
  \<open>2 ^ i\<close> pages, and a block that starts at \<open>b\<close> covers \<open>b, \<dots>, b + 2 ^ i - 1\<close>. The ids
  are listed with repetition, one occurrence for every block that covers them.
\<close>

fun covered_from :: "nat \<Rightarrow> nat list list \<Rightarrow> nat list" where
  "covered_from i [] = []"
| "covered_from i (bs # bl) = concat (map (\<lambda>b. [b..<b + 2 ^ i]) bs) @ covered_from (Suc i) bl"

definition covered :: "sim \<Rightarrow> nat list" where
  "covered s = covered_from 0 (buddy_lists s)"

text \<open>
  The placement rule in the specification's words. \<open>free_runs S pgs\<close> are the maximal runs
  of contiguous free slots of \<open>pgs\<close>, left to right, each as (start, length), when the
  first slot of \<open>pgs\<close> has index \<open>S\<close>: a run starts at a free slot, extends over the
  free slots that follow it, and the scan goes on behind it. A slot is free when its
  content is negative, as \<^verbatim>\<open>update_buddy_lists\<close> tests it.
\<close>

function free_runs :: "nat \<Rightarrow> int list \<Rightarrow> (nat \<times> nat) list" where
  "free_runs S [] = []"
| "free_runs S (x # xs) =
     (if x < 0 then
        (let L = Suc (length (takeWhile (\<lambda>y. y < 0) xs))
         in (S, L) # free_runs (S + L) (dropWhile (\<lambda>y. y < 0) xs))
      else free_runs (Suc S) xs)"
  by pat_completeness auto
termination
  by (relation "measure (\<lambda>(S, xs). length xs)") (auto simp: length_dropWhile_le less_Suc_eq_le)

text \<open>
  Auxiliary notions of the proofs: the chunks (order, start id) that the digits of a
  run's length stand for, their total size, and the buddy lists with chunks appended.
\<close>

fun digit_chunks :: "string \<Rightarrow> nat \<Rightarrow> nat \<Rightarrow> (nat \<times> nat) list" where
  "digit_chunks [] j a = []"
| "digit_chunks (c # cs) j a =
     (if c = CHR ''1'' then (j, a) # digit_chunks cs (Suc j) (a + 2 ^ j)
      else digit_chunks cs (Suc j) a)"

fun digits_val :: "string \<Rightarrow> nat \<Rightarrow> nat" where
  "digits_val [] j = 0"
| "digits_val (c # cs) j = (if c = CHR ''1'' then 2 ^ j else 0) + digits_val cs (Suc j)"

definition add_chunk :: "nat list list \<Rightarrow> nat \<times> nat \<Rightarrow> nat list list" where
  "add_chunk bl c = bl[fst c := bl ! fst c @ [snd c]]"

definition add_chunks :: "nat list list \<Rightarrow> (nat \<times> nat) list \<Rightarrow> nat list list" where
  "add_chunks bl cs = foldl add_chunk bl cs"

definition chunk_range :: "nat \<times> nat \<Rightarrow> nat list" where
  "chunk_range c = [snd c..<snd c + 2 ^ fst c]"

definition chunks_of_runs :: "(nat \<times> nat) list \<Rightarrow> (nat \<times> nat) list" where
  "chunks_of_runs rs = concat (map (\<lambda>r. digit_chunks (bin_rev (snd r)) 0 (fst r)) rs)"

definition finish :: "error + (nat \<times> nat \<times> bool \<times> nat list list) \<Rightarrow> error + nat list list" where
  "finish r = (case r of Inl e \<Rightarrow> Inl e
     | Inr (p1, p2, started, bl) \<Rightarrow>
         if started then partition_and_return p1 (p2 - p1) bl else Inr bl)"

definition placed :: "nat list list \<Rightarrow> (nat \<times> nat) list \<Rightarrow> error + nat list list" where
  "placed bl cs = (if \<forall>c\<in>set cs. fst c < length bl then Inr (add_chunks bl cs) else Inl IndexError)"

fun free_from :: "nat \<Rightarrow> int list \<Rightarrow> nat list" where
  "free_from p [] = []"
| "free_from p (x # xs) = (if x < 0 then [p] else []) @ free_from (Suc p) xs"

text \<open>
  Every page slot holds \<open>-1\<close> or a sequence number; the buddy lists are up to date when
  they are what a rebuild from the current page slots gives.
\<close>

definition good_pages :: "sim \<Rightarrow> bool" where
  "good_pages s \<longleftrightarrow> (\<forall>x\<in>set (pages s). - 1 \<le> x)"

definition up_to_date :: "sim \<Rightarrow> bool" where
  "up_to_date s \<longleftrightarrow> rebuild (pages s) (length (buddy_lists s)) = Inr (buddy_lists s)"

definition buddy_step :: "sim \<Rightarrow> sim \<Rightarrow> bool" where
  "buddy_step s s' \<longleftrightarrow>
     (good_pages s \<longrightarrow> good_pages s') \<and>
     (up_to_date s' \<or> (pages s' = pages s \<and> buddy_lists s' = buddy_lists s))"

text \<open>
  A run of length \<open>L\<close> that starts at \<open>S\<close> gets one chunk per set bit of \<open>L\<close>, in
  increasing order of bit significance; the first chunk starts at \<open>S\<close> and every other
  chunk right behind the one before it. A chunk is written (order, start id).
  \<open>placement pgs n\<close> are the \<open>n\<close> buddy lists that register, from left to right, the
  chunks of every maximal free run of \<open>pgs\<close>.
\<close>

definition set_bits :: "nat \<Rightarrow> nat list" where
  "set_bits L = filter (\<lambda>j. odd (L div 2 ^ j)) [0..<L]"

fun place :: "nat \<Rightarrow> nat list \<Rightarrow> (nat \<times> nat) list" where
  "place a [] = []"
| "place a (j # js) = (j, a) # place (a + 2 ^ j) js"

definition run_chunks :: "nat \<Rightarrow> nat \<Rightarrow> (nat \<times> nat) list" where
  "run_chunks S L = place S (set_bits L)"

definition placement :: "int list \<Rightarrow> nat \<Rightarrow> nat list list" where
  "placement pgs n =
     map (\<lambda>j. map snd (filter (\<lambda>c. fst c = j)
                 (concat (map (\<lambda>(S, L). run_chunks S L) (free_runs 0 pgs)))))
       [0..<n]"

fun ones :: "string \<Rightarrow> nat list" where
  "ones [] = []"
| "ones (c # cs) = (if c = CHR ''1'' then [0] else []) @ map Suc (ones cs)"

text \<open>
  The invariant behind the residency claim. The nodes of both lists carry pairwise
  different page ids; a node \<open>(p, seqno, num)\<close> stands for an occupied page \<open>p\<close> that
  entry \<open>num\<close> of the record of \<open>seqno\<close> holds; and every entry that holds a page has
  its node, except at the positions \<open>P\<close> whose nodes are about to be inserted or have
  just been taken out (within one event). The blocks of the buddy lists cover free
  page slots only.
\<close>

definition nodes :: "sim \<Rightarrow> node list" where
  "nodes s = inactive_list s @ active_list s"

definition node_ok :: "sim \<Rightarrow> node \<Rightarrow> bool" where
  "node_ok s nd \<longleftrightarrow>
     0 \<le> fst nd \<and> access s (fst (snd nd)) (snd (snd nd)) = fst nd \<and>
     nat (fst nd) < length (pages s) \<and> pages s ! nat (fst nd) \<noteq> - 1"

definition pending_ok :: "sim \<Rightarrow> nat \<times> nat \<Rightarrow> bool" where
  "pending_ok s pos \<longleftrightarrow>
     0 \<le> access s (fst pos) (snd pos) \<and>
     nat (access s (fst pos) (snd pos)) < length (pages s) \<and>
     pages s ! nat (access s (fst pos) (snd pos)) \<noteq> - 1 \<and>
     access s (fst pos) (snd pos) \<notin> fst ` set (nodes s)"

definition core :: "(nat \<times> nat) set \<Rightarrow> sim \<Rightarrow> bool" where
  "core P s \<longleftrightarrow>
     good_pages s \<and> (\<forall>sq k. - 1 \<le> access s sq k) \<and>
     distinct (map fst (nodes s)) \<and>
     (\<forall>nd\<in>set (nodes s). node_ok s nd) \<and>
     (\<forall>sq k. 0 \<le> access s sq k \<longrightarrow> (sq, k) \<in> P \<or> (access s sq k, sq, k) \<in> set (nodes s)) \<and>
     (\<forall>pos\<in>P. pending_ok s pos) \<and>
     inj_on (\<lambda>pos. access s (fst pos) (snd pos)) P"

definition cover_ok :: "sim \<Rightarrow> bool" where
  "cover_ok s \<longleftrightarrow> set (covered s) \<subseteq> {p. p < length (pages s) \<and> pages s ! p = - 1}"

definition inv :: "(nat \<times> nat) set \<Rightarrow> sim \<Rightarrow> bool" where
  "inv P s \<longleftrightarrow> core P s \<and> cover_ok s"

text \<open>
  What the reclaimer may do to the allocation records: the sequence numbers that have a
  record stay the same, and an entry either keeps its value or becomes the sentinel.
\<close>

definition frame :: "sim \<Rightarrow> sim \<Rightarrow> bool" where
  "frame s s' \<longleftrightarrow>
     dom (allocated_pages s') = dom (allocated_pages s) \<and>
     (\<forall>sq k. access s' sq k = access s sq k \<or> access s' sq k = - 1)"

text \<open>The sequence numbers of the \<^verbatim>\<open>A\<close> events of a trace, in the order of the events.\<close>

fun allocations :: "instr list \<Rightarrow> nat list" where
  "allocations [] = []"
| "allocations (Instr action seqno num # instrs) =
     (if action = ''A'' then seqno # allocations instrs else allocations instrs)"

text \<open>
  Residency at the entry \<open>num\<close> of the allocation record of \<open>seqno\<close>, when the record has
  such an entry: a page id other than \<open>-1\<close> is the page id of exactly one node, counting
  the nodes of the inactive and of the active list together; for the sentinel \<open>-1\<close> no
  node of either list stands for the position \<open>(seqno, num)\<close> and no node carries \<open>-1\<close>.
\<close>

definition residency :: "sim \<Rightarrow> nat \<Rightarrow> nat \<Rightarrow> bool" where
  "residency s seqno num \<longleftrightarrow>
     (case allocated_pages s seqno of
        None \<Rightarrow> True
      | Some l \<Rightarrow>
          num < length l \<longrightarrow>
            (if l ! num \<noteq> - 1
             then length (filter (\<lambda>nd. fst nd = l ! num) (inactive_list s)) +
                  length (filter (\<lambda>nd. fst nd = l ! num) (active_list s)) = 1
             else (\<forall>nd\<in>set (inactive_list s @ active_list s).
                     fst nd \<noteq> - 1 \<and> snd nd \<noteq> (seqno, num))))"

section \<open>Proofs\<close>

subsection \<open>What each method leaves unchanged\<close>

declare floor_log2.simps [simp del] ceil_log2.simps [simp del] bin_rev.simps [simp del]
  delete_loop.simps [simp del]

lemma update_buddy_lists_Inr:
  "update_buddy_lists s = Inr s' \<Longrightarrow>
     \<exists>bl. rebuild (pages s) (length (buddy_lists s)) = Inr bl \<and> s' = s\<lparr>buddy_lists := bl\<rparr>"
  by (auto simp: update_buddy_lists_def split: sum.splits)

lemma deallocate_lru:
  "deallocate seqno num s = Inr (p, s') \<Longrightarrow>
     inactive_list s' = inactive_list s \<and> active_list s' = active_list s \<and>
     size_active s' = size_active s \<and> size_inactive s' = size_inactive s"
  by (auto simp: deallocate_def Let_def dest!: update_buddy_lists_Inr
      split: sum.splits if_splits option.splits)

lemma length_delete_loop: "length (delete_loop i p xs) \<le> length xs"
proof (induction i p xs rule: delete_loop.induct)
  case (1 i p xs)
  show ?case
  proof (cases "i < length xs")
    case False
    then show ?thesis by (simp add: delete_loop.simps)
  next
    case True
    show ?thesis
    proof (cases "fst (xs ! i) = p")
      case True
      with \<open>i < length xs\<close> 1(1) have "length (delete_loop (Suc i) p (remove1 (xs ! i) xs)) \<le> length (remove1 (xs ! i) xs)"
        by simp
      also have "\<dots> \<le> length xs" by (simp add: length_remove1)
      finally show ?thesis using True \<open>i < length xs\<close> by (subst delete_loop.simps) simp
    next
      case False
      with \<open>i < length xs\<close> 1(2) show ?thesis by (subst delete_loop.simps) simp
    qed
  qed
qed

lemma reclaim_lru:
  assumes "reclaim nd s = Inr s'"
  shows "length (inactive_list s') \<le> length (inactive_list s) \<and>
         length (active_list s') \<le> length (active_list s) \<and>
         size_active s' = size_active s \<and> size_inactive s' = size_inactive s"
proof -
  obtain p sq k where nd: "nd = (p, sq, k)" by (cases nd) auto
  from assms obtain r where d: "deallocate sq k (delete p s) = Inr (r, s')"
    by (auto simp: reclaim_def nd split: sum.splits)
  from deallocate_lru[OF d] show ?thesis
    by (simp add: delete_def length_delete_loop)
qed

lemma evict_loop_lru:
  "evict_loop k s = Inr s' \<Longrightarrow>
     length (inactive_list s') + k \<le> length (inactive_list s) \<and>
     length (active_list s') \<le> length (active_list s) \<and>
     size_active s' = size_active s \<and> size_inactive s' = size_inactive s"
proof (induction k arbitrary: s)
  case 0
  then show ?case by simp
next
  case (Suc k)
  from Suc.prems obtain nd rest s1 where
    l: "inactive_list s = nd # rest" and r: "reclaim nd (s\<lparr>inactive_list := rest\<rparr>) = Inr s1"
    and e: "evict_loop k s1 = Inr s'"
    by (auto split: list.splits sum.splits)
  from reclaim_lru[OF r] Suc.IH[OF e] l show ?case by simp
qed

lemma insert_inactive_lru:
  assumes "insert_inactive p sq k s = Inr s'"
  shows "length (inactive_list s') \<le> size_inactive s' \<and>
         length (active_list s') \<le> length (active_list s) \<and>
         size_active s' = size_active s \<and> size_inactive s' = size_inactive s"
proof (cases "length (inactive_list s) + 1 > size_inactive s")
  case True
  with assms have "evict_loop (length (inactive_list s) + 1 - size_inactive s)
      (s\<lparr>inactive_list := inactive_list s @ [(p, sq, k)]\<rparr>) = Inr s'"
    by (simp add: insert_inactive_def Let_def)
  from evict_loop_lru[OF this]
  have a: "length (inactive_list s') + (length (inactive_list s) + 1 - size_inactive s)
             \<le> length (inactive_list s) + 1"
    and b: "length (active_list s') \<le> length (active_list s)"
    and c: "size_active s' = size_active s" "size_inactive s' = size_inactive s"
    by simp_all
  from a True have "length (inactive_list s') \<le> size_inactive s" by arith
  with b c show ?thesis by simp
next
  case False
  with assms show ?thesis by (auto simp: insert_inactive_def Let_def)
qed

lemma demote_loop_lru:
  "demote_loop k s = Inr s' \<Longrightarrow>
     length (active_list s') + k \<le> length (active_list s) \<and>
     (if k = 0 then s' = s else length (inactive_list s') \<le> size_inactive s') \<and>
     size_active s' = size_active s \<and> size_inactive s' = size_inactive s"
proof (induction k arbitrary: s)
  case 0
  then show ?case by simp
next
  case (Suc k)
  from Suc.prems obtain p sq n rest s1 where
    l: "active_list s = (p, sq, n) # rest"
    and r: "insert_inactive p sq n (s\<lparr>active_list := rest\<rparr>) = Inr s1"
    and e: "demote_loop k s1 = Inr s'"
    by (auto split: list.splits sum.splits)
  from insert_inactive_lru[OF r] Suc.IH[OF e] l show ?case
    by (cases "k = 0") auto
qed

lemma promote_capacity:
  assumes "promote p s = Inr s'" and "within_capacity s"
  shows "within_capacity s' \<and> size_active s' = size_active s \<and> size_inactive s' = size_inactive s"
proof (cases "fst (find_index p s) = 0")
  case False
  with assms show ?thesis by (auto simp: promote_def split: prod.splits)
next
  case True
  define i where "i = nat (snd (find_index p s))"
  define s1 where "s1 = s\<lparr>inactive_list := take i (inactive_list s) @ drop (Suc i) (inactive_list s),
                       active_list := active_list s @ [inactive_list s ! i]\<rparr>"
  have li: "length (inactive_list s1) \<le> length (inactive_list s)"
    by (simp add: s1_def)
  show ?thesis
  proof (cases "length (active_list s1) > size_active s1")
    case False
    with True assms(1) have "s' = s1"
      by (auto simp: promote_def Let_def s1_def i_def split: prod.splits)
    with False li assms(2) show ?thesis by (auto simp: within_capacity_def s1_def)
  next
    case over: True
    with True assms(1) have d: "demote_loop (length (active_list s1) - size_active s1) s1 = Inr s'"
      by (auto simp: promote_def Let_def s1_def i_def split: prod.splits)
    from demote_loop_lru[OF d] over show ?thesis
      by (auto simp: within_capacity_def s1_def split: if_splits)
  qed
qed

lemma reclaim_n_loop_lru:
  "reclaim_n_loop k cur s = Inr s' \<Longrightarrow>
     length (inactive_list s') \<le> length (inactive_list s) \<and>
     length (active_list s') \<le> length (active_list s) \<and>
     size_active s' = size_active s \<and> size_inactive s' = size_inactive s"
proof (induction k arbitrary: cur s)
  case 0
  then show ?case by simp
next
  case (Suc k)
  from Suc.prems obtain nd s1 s2 where
    r: "reclaim nd s1 = Inr s2" and l: "reclaim_n_loop k (Some nd) s2 = Inr s'"
    and s1: "s1 = s\<lparr>inactive_list := tl (inactive_list s)\<rparr> \<or>
             s1 = s\<lparr>active_list := tl (active_list s)\<rparr> \<or> s1 = s"
    by (auto split: list.splits sum.splits option.splits)
  from s1 have "length (inactive_list s1) \<le> length (inactive_list s) \<and>
     length (active_list s1) \<le> length (active_list s) \<and>
     size_active s1 = size_active s \<and> size_inactive s1 = size_inactive s"
    by auto
  with reclaim_lru[OF r] Suc.IH[OF l] show ?case by simp
qed

lemma reclaim_deficit_lru:
  "reclaim_deficit n s = Inr s' \<Longrightarrow>
     length (inactive_list s') \<le> length (inactive_list s) \<and>
     length (active_list s') \<le> length (active_list s) \<and>
     size_active s' = size_active s \<and> size_inactive s' = size_inactive s"
  by (auto simp: reclaim_deficit_def reclaim_n_pages_def dest: reclaim_n_loop_lru split: if_splits)

lemma request_pages_lru:
  "request_pages seqno num s = Inr (ids, s') \<Longrightarrow>
     inactive_list s' = inactive_list s \<and> active_list s' = active_list s \<and>
     size_active s' = size_active s \<and> size_inactive s' = size_inactive s \<and>
     allocated_pages s' = allocated_pages s"
  by (auto simp: request_pages_def Let_def dest!: update_buddy_lists_Inr
      split: sum.splits if_splits option.splits prod.splits)

lemma insert_pages_capacity:
  "insert_pages k seqno idx s = Inr s' \<Longrightarrow> within_capacity s \<Longrightarrow>
     within_capacity s' \<and> size_active s' = size_active s \<and> size_inactive s' = size_inactive s"
proof (induction k arbitrary: idx s)
  case 0
  then show ?case by simp
next
  case (Suc k)
  show ?case
  proof (cases "\<exists>l. allocated_pages s seqno = Some l \<and> idx < length l")
    case False
    with Suc.prems show ?thesis by (auto split: option.splits)
  next
    case True
    then obtain l where l: "allocated_pages s seqno = Some l" "idx < length l" by auto
    with Suc.prems(1) obtain s1 where
      i: "insert_inactive (l ! idx) seqno idx s = Inr s1"
      and r: "insert_pages k seqno (Suc idx) s1 = Inr s'"
      by (auto split: sum.splits)
    from insert_inactive_lru[OF i] Suc.prems(2) have "within_capacity s1"
      by (auto simp: within_capacity_def)
    from Suc.IH[OF r this] insert_inactive_lru[OF i] show ?thesis by simp
  qed
qed

lemma do_allocate_capacity:
  assumes "do_allocate seqno num s = Inr s'" and "within_capacity s"
  shows "within_capacity s' \<and> size_active s' = size_active s \<and> size_inactive s' = size_inactive s"
proof -
  from assms(1) obtain s1 ids s2 where
    a: "reclaim_deficit (int num - count_free_pages s) s = Inr s1"
    and b: "request_pages seqno num s1 = Inr (ids, s2)"
    and c: "insert_pages (length ids) seqno 0 (allocate ids seqno s2) = Inr s'"
    by (auto simp: do_allocate_def split: sum.splits)
  from reclaim_deficit_lru[OF a] request_pages_lru[OF b] assms(2)
  have "within_capacity (allocate ids seqno s2)"
    by (auto simp: within_capacity_def allocate_def)
  from insert_pages_capacity[OF c this] reclaim_deficit_lru[OF a] request_pages_lru[OF b]
  show ?thesis by (simp add: allocate_def)
qed

lemma page_fault_capacity:
  assumes "page_fault seqno num s = Inr s'" and "within_capacity s"
  shows "within_capacity s' \<and> size_active s' = size_active s \<and> size_inactive s' = size_inactive s"
proof -
  from assms(1) obtain s1 ids s2 s3 where
    a: "reclaim_deficit (1 - count_free_pages s) s = Inr s1"
    and b: "request_pages seqno 1 s1 = Inr (ids, s2)"
    and c: "allocate_idx ids seqno num s2 = Inr s3"
    and d: "insert_inactive (last ids) seqno num s3 = Inr s'"
    by (auto simp: page_fault_def split: sum.splits)
  from c have s3: "inactive_list s3 = inactive_list s2 \<and> active_list s3 = active_list s2 \<and>
     size_active s3 = size_active s2 \<and> size_inactive s3 = size_inactive s2"
    by (auto simp: allocate_idx_def split: if_splits option.splits)
  from reclaim_deficit_lru[OF a] request_pages_lru[OF b] s3 insert_inactive_lru[OF d] assms(2)
  show ?thesis by (auto simp: within_capacity_def)
qed

lemma do_free_lru:
  assumes "do_free seqno num s = Inr s'"
  shows "length (inactive_list s') \<le> length (inactive_list s) \<and>
     length (active_list s') \<le> length (active_list s) \<and>
     size_active s' = size_active s \<and> size_inactive s' = size_inactive s"
proof -
  from assms obtain p s1 where d: "deallocate seqno num s = Inr (p, s1)" and s': "s' = delete p s1"
    by (auto simp: do_free_def split: sum.splits)
  from deallocate_lru[OF d] show ?thesis
    by (simp add: s' delete_def length_delete_loop)
qed

lemma process_cases:
  assumes "process (Instr a seqno num) s = Inr s'"
  obtains "a = ''A''" and "do_allocate seqno num s = Inr s'"
  | "a = ''X''" and "0 \<le> access s seqno num" and "promote (access s seqno num) s = Inr s'"
  | "a = ''X''" and "access s seqno num < 0" and "page_fault seqno num s = Inr s'"
  | "a = ''F''" and "do_free seqno num s = Inr s'"
  | "a \<noteq> ''A''" and "a \<noteq> ''X''" and "a \<noteq> ''F''" and "s' = s"
proof (cases "a = ''A''")
  case True
  with assms that(1) show ?thesis by simp
next
  case nA: False
  show ?thesis
  proof (cases "a = ''X''")
    case True
    show ?thesis
    proof (cases "0 \<le> access s seqno num")
      case True
      with assms \<open>a = ''X''\<close> that(2) show ?thesis by (simp add: do_access_def)
    next
      case False
      with assms \<open>a = ''X''\<close> that(3) show ?thesis by (simp add: do_access_def)
    qed
  next
    case nX: False
    show ?thesis
    proof (cases "a = ''F''")
      case True
      with assms that(4) show ?thesis by simp
    next
      case False
      with assms nA nX that(5) show ?thesis by simp
    qed
  qed
qed

lemma process_capacity:
  assumes "process i s = Inr s'" and "within_capacity s"
  shows "within_capacity s' \<and> size_active s' = size_active s \<and> size_inactive s' = size_inactive s"
proof -
  obtain a seqno num where i: "i = Instr a seqno num" by (cases i) auto
  from assms(1) have p: "process (Instr a seqno num) s = Inr s'" by (simp only: i)
  show ?thesis
  proof (rule process_cases[OF p])
    assume "do_allocate seqno num s = Inr s'"
    then show ?thesis using do_allocate_capacity assms(2) by blast
  next
    assume "promote (access s seqno num) s = Inr s'"
    then show ?thesis using promote_capacity assms(2) by blast
  next
    assume "page_fault seqno num s = Inr s'"
    then show ?thesis using page_fault_capacity assms(2) by blast
  next
    assume 4: "do_free seqno num s = Inr s'"
    from do_free_lru[OF 4] assms(2) show ?thesis by (auto simp: within_capacity_def)
  next
    assume "s' = s"
    then show ?thesis using assms(2) by simp
  qed
qed

lemma run_capacity:
  "run is s = Inr s' \<Longrightarrow> within_capacity s \<Longrightarrow>
     within_capacity s' \<and> size_active s' = size_active s \<and> size_inactive s' = size_inactive s"
proof (induction "is" arbitrary: s)
  case Nil
  then show ?case by simp
next
  case (Cons i "is")
  from Cons.prems(1) obtain s1 where p: "process i s = Inr s1" and r: "run is s1 = Inr s'"
    by (auto split: sum.splits)
  from process_capacity[OF p Cons.prems(2)] Cons.IH[OF r] show ?case by simp
qed

lemma init_Inr:
  "init M sa si = Inr s \<Longrightarrow>
     M \<noteq> 0 \<and> pages s = replicate M (- 1) \<and> allocated_pages s = Map.empty \<and>
     active_list s = [] \<and> inactive_list s = [] \<and> size_active s = sa \<and> size_inactive s = si \<and>
     buddy_lists s = (replicate (floor_log2 M + 1) [])[floor_log2 M := [0]]"
  by (auto simp: init_def Let_def split: if_splits)

text \<open>
  Claim C6 (list capacity invariant). After any trace that the simulator processes to
  the end, started from a fresh simulator with capacities \<open>sa\<close> and \<open>si\<close>, the active list
  holds at most \<open>sa\<close> nodes and the inactive list at most \<open>si\<close>. Every prefix of a trace
  is a trace, so this is the state after each event.
\<close>

theorem list_capacity_invariant:
  assumes "simulate MAX_PAGENO sa si instrs = Inr s"
  shows "length (active_list s) \<le> sa \<and> length (inactive_list s) \<le> si"
proof -
  from assms obtain s0 where i: "init MAX_PAGENO sa si = Inr s0" and r: "run instrs s0 = Inr s"
    by (auto simp: simulate_def split: sum.splits)
  from init_Inr[OF i] have "within_capacity s0" by (simp add: within_capacity_def)
  from run_capacity[OF r this] init_Inr[OF i] show ?thesis by (simp add: within_capacity_def)
qed

lemma Inr_projr: "\<not> isl r \<Longrightarrow> r = Inr (projr r)"
  by (cases r) auto

theorem list_capacity_invariant_witness:
  "\<not> isl (simulate 8 2 2 [Instr ''A'' 1 4, Instr ''X'' 1 3, Instr ''A'' 2 4, Instr ''F'' 2 3]) \<and>
   length (active_list (projr (simulate 8 2 2
       [Instr ''A'' 1 4, Instr ''X'' 1 3, Instr ''A'' 2 4, Instr ''F'' 2 3]))) \<le> 2 \<and>
   length (inactive_list (projr (simulate 8 2 2
       [Instr ''A'' 1 4, Instr ''X'' 1 3, Instr ''A'' 2 4, Instr ''F'' 2 3]))) \<le> 2"
proof -
  have h: "\<not> isl (simulate 8 2 2 [Instr ''A'' 1 4, Instr ''X'' 1 3, Instr ''A'' 2 4, Instr ''F'' 2 3])"
    by code_simp
  from list_capacity_invariant[OF Inr_projr[OF h]] h show ?thesis by simp
qed

lemma first_index_None: "first_index p xs = None \<longleftrightarrow> p \<notin> fst ` set xs"
  by (induction xs) auto

subsection \<open>The scenario with eight pages\<close>

text \<open>
  Claim C3, as the code runs it. With \<open>MAX_PAGENO = 8\<close> and both capacities 2, each
  allocation of four pages inserts its pages one by one into the inactive list and
  evicts the head whenever the list holds more than two nodes: after \<^verbatim>\<open>A 1 4\<close> and
  \<^verbatim>\<open>A 2 4\<close> only pages 6 and 7 are occupied (by sequence 2), six pages are free, and
  every page of sequence 1 has been evicted. The third event \<^verbatim>\<open>A 3 1\<close> finds six free
  pages (its deficit is \<open>-5\<close>, so nothing is reclaimed before the request), takes page 0,
  and the insertion of that page evicts exactly one page: the inactive head, page 6,
  entry 2 of sequence 2. Afterwards \<^verbatim>\<open>access(1, 0)\<close> is \<open>-1\<close> and \<^verbatim>\<open>count_free_pages()\<close>
  is 6.
\<close>

theorem scenario_eight_pages:
  "map_sum id pages (simulate 8 2 2 [Instr ''A'' 1 4, Instr ''A'' 2 4])
     = Inr [- 1, - 1, - 1, - 1, - 1, - 1, 2, 2] \<and>
   map_sum id inactive_list (simulate 8 2 2 [Instr ''A'' 1 4, Instr ''A'' 2 4])
     = Inr [(6, 2, 2), (7, 2, 3)] \<and>
   map_sum id (\<lambda>s. allocated_pages s 1) (simulate 8 2 2 [Instr ''A'' 1 4, Instr ''A'' 2 4])
     = Inr (Some [- 1, - 1, - 1, - 1]) \<and>
   map_sum id (\<lambda>s. 1 - count_free_pages s) (simulate 8 2 2 [Instr ''A'' 1 4, Instr ''A'' 2 4])
     = Inr (- 5) \<and>
   map_sum id pages (simulate 8 2 2 [Instr ''A'' 1 4, Instr ''A'' 2 4, Instr ''A'' 3 1])
     = Inr [3, - 1, - 1, - 1, - 1, - 1, - 1, 2] \<and>
   map_sum id inactive_list (simulate 8 2 2 [Instr ''A'' 1 4, Instr ''A'' 2 4, Instr ''A'' 3 1])
     = Inr [(7, 2, 3), (0, 3, 0)] \<and>
   map_sum id active_list (simulate 8 2 2 [Instr ''A'' 1 4, Instr ''A'' 2 4, Instr ''A'' 3 1])
     = Inr [] \<and>
   map_sum id (\<lambda>s. allocated_pages s 2)
       (simulate 8 2 2 [Instr ''A'' 1 4, Instr ''A'' 2 4, Instr ''A'' 3 1])
     = Inr (Some [- 1, - 1, - 1, 7]) \<and>
   map_sum id (\<lambda>s. access s 1 0)
       (simulate 8 2 2 [Instr ''A'' 1 4, Instr ''A'' 2 4, Instr ''A'' 3 1]) = Inr (- 1) \<and>
   map_sum id count_free_pages
       (simulate 8 2 2 [Instr ''A'' 1 4, Instr ''A'' 2 4, Instr ''A'' 3 1]) = Inr 6"
  by code_simp

text \<open>
  The claim as the specification states it fails: the first two allocations do not
  leave all eight pages occupied, and no page is left occupied beyond two after the
  third event either, so \<^verbatim>\<open>count_free_pages()\<close> is not 0.
\<close>

theorem scenario_eight_pages_counterexample:
  "map_sum id count_free_pages (simulate 8 2 2 [Instr ''A'' 1 4, Instr ''A'' 2 4]) \<noteq> Inr 0 \<and>
   map_sum id count_free_pages
      (simulate 8 2 2 [Instr ''A'' 1 4, Instr ''A'' 2 4, Instr ''A'' 3 1]) \<noteq> Inr 0"
  by code_simp

subsection \<open>Events that raise\<close>

text \<open>
  Claim C5 at its failing inputs. An access to a sequence that was never allocated
  reaches \<^verbatim>\<open>allocate(page_ids, seqno, idx=num)\<close>, which looks the sequence up in the
  allocation records and raises \<^verbatim>\<open>KeyError\<close>; an access past the end of an existing
  record raises \<^verbatim>\<open>IndexError\<close> at the assignment of the entry.
\<close>

theorem access_unallocated_raises:
  "map_sum id (\<lambda>s. ()) (simulate 8 2 2 [Instr ''X'' 1 0]) = Inl KeyError \<and>
   map_sum id (\<lambda>s. ()) (simulate 8 2 2 [Instr ''A'' 1 1, Instr ''X'' 1 3]) = Inl IndexError"
  by code_simp

text \<open>
  Claim C9 at its failing input. An allocation of zero pages has no deficit, so
  \<^verbatim>\<open>request_pages(seqno, 0)\<close> is called and its first statement evaluates
  \<^verbatim>\<open>math.log2(0)\<close>, which raises \<^verbatim>\<open>ValueError\<close>: in every state, for every sequence.
\<close>

lemma count_free_pages_nonneg: "0 \<le> count_free_pages s"
  unfolding count_free_pages_def by (rule sum_list_nonneg) auto

theorem allocate_zero_raises:
  "process (Instr ''A'' seqno 0) s = Inl ValueError"
proof -
  have "reclaim_deficit (int 0 - count_free_pages s) s = Inr s"
    using count_free_pages_nonneg[of s] by (simp add: reclaim_deficit_def)
  then show ?thesis by (simp add: do_allocate_def request_pages_def)
qed

subsection \<open>The rebuild of the buddy lists\<close>

declare free_runs.simps [simp del]

lemma length_add_chunk [simp]: "length (add_chunk bl c) = length bl"
  by (simp add: add_chunk_def)

lemma length_add_chunks [simp]: "length (add_chunks bl cs) = length bl"
  unfolding add_chunks_def by (induction cs arbitrary: bl) simp_all

lemma add_chunks_Nil [simp]: "add_chunks bl [] = bl"
  by (simp add: add_chunks_def)

lemma add_chunks_Cons [simp]: "add_chunks bl (c # cs) = add_chunks (add_chunk bl c) cs"
  by (simp add: add_chunks_def)

lemma add_chunks_append: "add_chunks bl (cs @ ds) = add_chunks (add_chunks bl cs) ds"
  by (simp add: add_chunks_def)

lemma placed_Nil [simp]: "placed bl [] = Inr bl"
  by (simp add: placed_def)

lemma placed_append:
  "placed bl (cs @ ds) = (case placed bl cs of Inl e \<Rightarrow> Inl e | Inr bl' \<Rightarrow> placed bl' ds)"
  by (auto simp: placed_def add_chunks_append)

lemma partition_loop_placed: "partition_loop cs j a bl = placed bl (digit_chunks cs j a)"
proof (induction cs arbitrary: j a bl)
  case Nil
  then show ?case by simp
next
  case (Cons c cs)
  show ?case
  proof (cases "c = CHR ''1''")
    case False
    then show ?thesis by (simp add: Cons.IH)
  next
    case True
    then show ?thesis
      by (simp add: Cons.IH) (simp add: placed_def add_chunk_def)
  qed
qed

lemma bin_rev_0: "bin_rev 0 = ''0''"
  by (simp add: bin_rev.simps)

lemma partition_and_return_placed:
  "partition_and_return a L bl = placed bl (digit_chunks (bin_rev L) 0 a)"
  by (simp add: partition_and_return_def partition_loop_placed)

lemma free_runs_all_free:
  "\<forall>z\<in>set zs. z < 0 \<Longrightarrow> free_runs S zs = (if zs = [] then [] else [(S, length zs)])"
  by (cases zs) (simp_all add: free_runs.simps takeWhile_eq_all_conv[THEN iffD2]
      dropWhile_eq_Nil_conv[THEN iffD2])

lemma free_runs_prefix:
  assumes "\<forall>z\<in>set zs. z < 0" and "\<not> x < 0"
  shows "free_runs S (zs @ x # xs) =
     (if zs = [] then [] else [(S, length zs)]) @ free_runs (Suc (S + length zs)) xs"
proof (cases zs)
  case Nil
  with assms show ?thesis by (simp add: free_runs.simps)
next
  case (Cons z zs')
  with assms have tw: "takeWhile (\<lambda>y. y < 0) (zs' @ x # xs) = zs'"
    and dw: "dropWhile (\<lambda>y. y < 0) (zs' @ x # xs) = x # xs"
    by (simp_all add: takeWhile_append2 dropWhile_append2)
  from Cons assms show ?thesis
    by (simp add: free_runs.simps tw dw)
qed

lemma chunks_of_runs_simps [simp]:
  "chunks_of_runs [] = []"
  "chunks_of_runs (r # rs) = digit_chunks (bin_rev (snd r)) 0 (fst r) @ chunks_of_runs rs"
  "chunks_of_runs (rs @ rs') = chunks_of_runs rs @ chunks_of_runs rs'"
  by (simp_all add: chunks_of_runs_def)

lemma digit_chunks_zero [simp]: "digit_chunks (bin_rev 0) j a = []"
  by (simp add: bin_rev_0)

lemma scan_finish:
  assumes "\<forall>z\<in>set zs. z < 0" and "p2 = p1 + length zs" and "st \<or> zs = []"
  shows "finish (scan_pages xs p1 p2 st bl) = placed bl (chunks_of_runs (free_runs p1 (zs @ xs)))"
  using assms
proof (induction xs arbitrary: zs p1 p2 st bl)
  case Nil
  then show ?case
    by (auto simp: finish_def partition_and_return_placed free_runs_all_free)
next
  case (Cons x xs)
  show ?case
  proof (cases "x < 0")
    case True
    have "finish (scan_pages xs p1 (p2 + 1) True bl)
        = placed bl (chunks_of_runs (free_runs p1 ((zs @ [x]) @ xs)))"
      by (rule Cons.IH) (use Cons.prems True in auto)
    with True show ?thesis by simp
  next
    case False
    have fr: "free_runs p1 (zs @ x # xs) =
        (if zs = [] then [] else [(p1, length zs)]) @ free_runs (Suc p2) xs"
      using free_runs_prefix[OF Cons.prems(1) False] Cons.prems(2) by simp
    have c1: "chunks_of_runs (if zs = [] then [] else [(p1, length zs)])
        = digit_chunks (bin_rev (length zs)) 0 p1"
      by simp
    have ih: "finish (scan_pages xs (Suc p2) (Suc p2) b bl') =
        placed bl' (chunks_of_runs (free_runs (Suc p2) xs))" for b bl'
      using Cons.IH[of "[]" "Suc p2" "Suc p2" b bl'] by simp
    show ?thesis
    proof (cases st)
      case True
      show ?thesis
      proof (cases "placed bl (digit_chunks (bin_rev (length zs)) 0 p1)")
        case (Inl e)
        with True False Cons.prems(2) show ?thesis
          by (simp add: fr c1 placed_append partition_and_return_placed finish_def)
      next
        case (Inr bl')
        with True False Cons.prems(2) ih[of True bl'] show ?thesis
          by (simp add: fr c1 placed_append partition_and_return_placed)
      qed
    next
      case nst: False
      with Cons.prems have "zs = []" "p2 = p1" by auto
      with False nst ih[of False bl] fr show ?thesis
        by simp
    qed
  qed
qed

lemma rebuild_placed:
  "rebuild pgs n = placed (replicate n []) (chunks_of_runs (free_runs 0 pgs))"
  using scan_finish[of "[]" 0 0 False pgs "replicate n []"]
  by (simp add: rebuild_def finish_def)

lemma upt_add_append: "[a..<a + m] @ [a + m..<a + m + n] = [a..<a + m + (n::nat)]"
  by (metis le_add1 upt_add_eq_append)

lemma covered_from_add_chunk:
  "j < length bl \<Longrightarrow>
     mset (covered_from i (add_chunk bl (j, a))) = mset (covered_from i bl) + mset [a..<a + 2 ^ (i + j)]"
proof (induction bl arbitrary: i j)
  case Nil
  then show ?case by simp
next
  case (Cons bs bl)
  show ?case
  proof (cases j)
    case 0
    then show ?thesis by (simp add: add_chunk_def)
  next
    case (Suc j')
    with Cons.prems have "j' < length bl" by simp
    from Cons.IH[OF this, of "Suc i"] Suc show ?thesis
      by (simp add: add_chunk_def)
  qed
qed

lemma covered_add_chunks:
  "\<forall>c\<in>set cs. fst c < length bl \<Longrightarrow>
     mset (covered_from 0 (add_chunks bl cs)) =
       mset (covered_from 0 bl) + mset (concat (map chunk_range cs))"
proof (induction cs arbitrary: bl)
  case Nil
  then show ?case by simp
next
  case (Cons c cs)
  obtain j a where c: "c = (j, a)" by (cases c) auto
  from Cons.prems c have j: "j < length bl" by simp
  from Cons.prems have "\<forall>c\<in>set cs. fst c < length (add_chunk bl c)" by simp
  then have "\<forall>d\<in>set cs. fst d < length (add_chunk bl c)" by simp
  from Cons.IH[OF this] covered_from_add_chunk[OF j, of 0 a] c show ?case
    by (simp add: chunk_range_def)
qed

lemma upt_Cons_add: "[q..<q + Suc n] = q # [Suc q..<Suc q + n]"
  by (subst upt_rec) simp

lemma ranges_digit_chunks:
  "concat (map chunk_range (digit_chunks cs j a)) = [a..<a + digits_val cs j]"
proof (induction cs arbitrary: j a)
  case Nil
  then show ?case by simp
next
  case (Cons c cs)
  show ?case
  proof (cases "c = CHR ''1''")
    case True
    then have "concat (map chunk_range (digit_chunks (c # cs) j a))
        = chunk_range (j, a) @ [a + 2 ^ j..<a + 2 ^ j + digits_val cs (Suc j)]"
      by (simp add: Cons.IH)
    also have "chunk_range (j, a) = [a..<a + 2 ^ j]" by (simp add: chunk_range_def)
    also have "[a..<a + 2 ^ j] @ [a + 2 ^ j..<a + 2 ^ j + digits_val cs (Suc j)]
        = [a..<a + 2 ^ j + digits_val cs (Suc j)]"
      by (rule upt_add_append)
    finally show ?thesis using True by (simp add: add.assoc)
  next
    case False
    then show ?thesis by (simp add: Cons.IH)
  qed
qed

lemma digits_val_bin_rev: "digits_val (bin_rev n) j = n * 2 ^ j"
proof (induction n arbitrary: j rule: bin_rev.induct)
  case (1 n)
  show ?case
  proof (cases "n < 2")
    case True
    then have "n = 0 \<or> n = 1" by arith
    then show ?thesis
    proof
      assume "n = 0"
      then show ?thesis by (simp add: bin_rev.simps)
    next
      assume "n = 1"
      then show ?thesis by (simp add: bin_rev.simps)
    qed
  next
    case False
    have ih: "digits_val (bin_rev (n div 2)) (Suc j) = (n div 2) * 2 ^ Suc j"
      using 1[OF False] by simp
    have br: "bin_rev n = (if even n then CHR ''0'' else CHR ''1'') # bin_rev (n div 2)"
      using False by (subst bin_rev.simps) simp
    have n: "n = 2 * (n div 2) + n mod 2" by simp
    show ?thesis
    proof (cases "even n")
      case True
      then have "n mod 2 = 0" by (simp add: even_iff_mod_2_eq_zero)
      with n have "n = 2 * (n div 2)" by simp
      then have "n * 2 ^ j = (n div 2) * 2 ^ Suc j" by (metis mult.assoc mult.commute power_Suc)
      with True show ?thesis by (simp only: br ih digits_val.simps) simp
    next
      case False
      then have "n mod 2 = 1" by (simp add: odd_iff_mod_2_eq_one)
      with n have "n = 2 * (n div 2) + 1" by simp
      then have "n * 2 ^ j = (2 * (n div 2) + 1) * 2 ^ j" by simp
      also have "\<dots> = 2 ^ j + (n div 2) * 2 ^ Suc j" by (simp add: algebra_simps)
      finally show ?thesis using False by (simp only: br ih digits_val.simps) simp
    qed
  qed
qed

lemma ranges_run_chunks:
  "concat (map chunk_range (digit_chunks (bin_rev L) 0 S)) = [S..<S + L]"
  by (simp add: ranges_digit_chunks digits_val_bin_rev)

lemma ranges_chunks_of_runs:
  "concat (map chunk_range (chunks_of_runs rs)) = concat (map (\<lambda>r. [fst r..<fst r + snd r]) rs)"
  by (induction rs) (simp_all add: ranges_run_chunks)

lemma free_from_prefix:
  "\<forall>z\<in>set zs. z < 0 \<Longrightarrow> free_from q (zs @ ys) = [q..<q + length zs] @ free_from (q + length zs) ys"
proof (induction zs arbitrary: q)
  case Nil
  then show ?case by simp
next
  case (Cons z zs)
  from Cons.prems have a: "free_from q ((z # zs) @ ys) = q # free_from (Suc q) (zs @ ys)" by simp
  have b: "free_from (Suc q) (zs @ ys) = [Suc q..<Suc q + length zs] @ free_from (Suc q + length zs) ys"
    using Cons.prems by (intro Cons.IH) simp
  have e: "[q..<q + length (z # zs)] = q # [Suc q..<Suc q + length zs]"
    using upt_Cons_add[of q "length zs"] by simp
  have l: "q + length (z # zs) = Suc q + length zs" by simp
  show ?case by (subst e, subst l) (use a b in simp)
qed

lemma runs_cover:
  "concat (map (\<lambda>r. [fst r..<fst r + snd r]) (free_runs p xs)) = free_from p xs"
proof (induction p xs rule: free_runs.induct)
  case (1 S)
  then show ?case by (simp add: free_runs.simps)
next
  case (2 S x xs)
  show ?case
  proof (cases "x < 0")
    case False
    with 2(2) show ?thesis by (simp add: free_runs.simps)
  next
    case True
    define tw where "tw = takeWhile (\<lambda>y. y < 0) xs"
    define dw where "dw = dropWhile (\<lambda>y. y < 0) xs"
    have xs: "xs = tw @ dw" by (simp add: tw_def dw_def)
    have tw: "\<forall>z\<in>set tw. z < 0" by (auto simp: tw_def dest: set_takeWhileD)
    have ih: "concat (map (\<lambda>r. [fst r..<fst r + snd r]) (free_runs (S + Suc (length tw)) dw))
        = free_from (S + Suc (length tw)) dw"
      using 2(1)[OF True refl] by (simp add: tw_def dw_def)
    have fr: "free_runs S (x # xs) = (S, Suc (length tw)) # free_runs (S + Suc (length tw)) dw"
      using True by (simp add: free_runs.simps tw_def dw_def Let_def)
    have "free_from S (x # xs) = free_from S ((x # tw) @ dw)" by (simp add: xs[symmetric])
    also have "\<dots> = [S..<S + length (x # tw)] @ free_from (S + length (x # tw)) dw"
      by (rule free_from_prefix) (use True tw in simp)
    finally have "free_from S (x # xs) = [S..<S + Suc (length tw)] @ free_from (S + Suc (length tw)) dw"
      by simp
    with ih show ?thesis by (simp only: fr list.map concat.simps fst_conv snd_conv)
  qed
qed

lemma free_from_filter:
  "free_from p xs = map (\<lambda>i. i + p) (filter (\<lambda>i. xs ! i < 0) [0..<length xs])"
proof (induction xs arbitrary: p)
  case Nil
  then show ?case by simp
next
  case (Cons x xs)
  have "[0..<length (x # xs)] = 0 # map Suc [0..<length xs]"
    by (simp add: upt_conv_Cons map_Suc_upt del: upt_Suc)
  then show ?case
    by (simp add: Cons.IH filter_map comp_def del: upt_Suc)
qed

lemma covered_from_replicate [simp]: "covered_from i (replicate n []) = []"
  by (induction n arbitrary: i) simp_all

lemma rebuild_cover:
  assumes "rebuild pgs n = Inr bl"
  shows "mset (covered_from 0 bl) = mset (filter (\<lambda>i. pgs ! i < 0) [0..<length pgs])"
    and "length bl = n"
proof -
  let ?cs = "chunks_of_runs (free_runs 0 pgs)"
  from assms have ok: "\<forall>c\<in>set ?cs. fst c < length (replicate n ([]::nat list))"
    and bl: "bl = add_chunks (replicate n []) ?cs"
    by (auto simp: rebuild_placed placed_def split: if_splits)
  from bl show "length bl = n" by simp
  from covered_add_chunks[OF ok] bl
  have "mset (covered_from 0 bl) = mset (concat (map chunk_range ?cs))" by simp
  also have "concat (map chunk_range ?cs) = free_from 0 pgs"
    by (simp add: ranges_chunks_of_runs runs_cover)
  also have "\<dots> = filter (\<lambda>i. pgs ! i < 0) [0..<length pgs]"
    by (simp add: free_from_filter)
  finally show "mset (covered_from 0 bl) = mset (filter (\<lambda>i. pgs ! i < 0) [0..<length pgs])" .
qed

subsection \<open>The partition invariant\<close>

lemma buddy_step_refl [simp]: "buddy_step s s"
  by (simp add: buddy_step_def)

lemma buddy_step_trans: "buddy_step s s1 \<Longrightarrow> buddy_step s1 s2 \<Longrightarrow> buddy_step s s2"
  by (auto simp: buddy_step_def up_to_date_def)

lemma buddy_step_same:
  "pages s' = pages s \<Longrightarrow> buddy_lists s' = buddy_lists s \<Longrightarrow> buddy_step s s'"
  by (simp add: buddy_step_def good_pages_def)

lemma buddy_step_up: "buddy_step s s' \<Longrightarrow> up_to_date s \<Longrightarrow> up_to_date s'"
  by (auto simp: buddy_step_def up_to_date_def)

lemma buddy_step_good: "buddy_step s s' \<Longrightarrow> good_pages s \<Longrightarrow> good_pages s'"
  by (auto simp: buddy_step_def)

lemma update_buddy_lists_up:
  assumes "update_buddy_lists s = Inr s'"
  shows "up_to_date s'" and "pages s' = pages s"
proof -
  from update_buddy_lists_Inr[OF assms] obtain bl where
    r: "rebuild (pages s) (length (buddy_lists s)) = Inr bl" and s': "s' = s\<lparr>buddy_lists := bl\<rparr>"
    by auto
  from rebuild_cover(2)[OF r] r s' show "up_to_date s'" by (simp add: up_to_date_def)
  from s' show "pages s' = pages s" by simp
qed

lemma good_pages_update:
  "good_pages s \<Longrightarrow> - 1 \<le> v \<Longrightarrow> good_pages (s\<lparr>pages := (pages s)[i := v]\<rparr>)"
  by (auto simp: good_pages_def dest!: set_update_subset_insert[THEN subsetD])

lemma deallocate_up:
  assumes "deallocate seqno num s = Inr (p, s')"
  shows "up_to_date s'" and "good_pages s \<Longrightarrow> good_pages s'"
proof -
  from assms obtain s1 where u: "update_buddy_lists s1 = Inr s'"
    and s1: "s1 = s \<or> (\<exists>i al. s1 = s\<lparr>pages := (pages s)[i := - 1], allocated_pages := al\<rparr>)"
    by (auto simp: deallocate_def Let_def split: sum.splits if_splits option.splits)
  from update_buddy_lists_up[OF u] show "up_to_date s'" by simp
  assume g: "good_pages s"
  from s1 have "good_pages s1"
  proof
    assume "s1 = s"
    with g show ?thesis by simp
  next
    assume "\<exists>i al. s1 = s\<lparr>pages := (pages s)[i := - 1], allocated_pages := al\<rparr>"
    then obtain i al where "s1 = s\<lparr>pages := (pages s)[i := - 1], allocated_pages := al\<rparr>" by auto
    with good_pages_update[OF g, of "- 1" i] show ?thesis by (simp add: good_pages_def)
  qed
  with update_buddy_lists_up(2)[OF u] show "good_pages s'" by (simp add: good_pages_def)
qed

lemma mark_range_good:
  "mark_range ps v pgs = Inr pgs' \<Longrightarrow> - 1 \<le> v \<Longrightarrow> \<forall>x\<in>set pgs. - 1 \<le> x \<Longrightarrow> \<forall>x\<in>set pgs'. - 1 \<le> x"
proof (induction ps arbitrary: pgs)
  case Nil
  then show ?case by simp
next
  case (Cons p ps)
  from Cons.prems(1) have m: "mark_range ps v (pgs[p := v]) = Inr pgs'"
    by (simp split: if_splits)
  have "\<forall>x\<in>set (pgs[p := v]). - 1 \<le> x"
    using Cons.prems(2,3) by (auto dest!: set_update_subset_insert[THEN subsetD])
  from Cons.IH[OF m Cons.prems(2) this] show ?case .
qed

lemma discontiguous_good:
  "discontiguous xs i v r = (ys, ids) \<Longrightarrow> - 1 \<le> v \<Longrightarrow> \<forall>x\<in>set xs. - 1 \<le> x \<Longrightarrow> \<forall>x\<in>set ys. - 1 \<le> x"
proof (induction xs arbitrary: i r ys ids)
  case Nil
  then show ?case by simp
next
  case (Cons x xs)
  then show ?case
    by (auto split: if_splits prod.splits)
qed

lemma request_pages_up:
  assumes "request_pages seqno num s = Inr (ids, s')"
  shows "up_to_date s'" and "good_pages s \<Longrightarrow> good_pages s'"
proof -
  from assms obtain s1 where u: "update_buddy_lists s1 = Inr s'"
    and s1: "(\<exists>ps pgs bl. mark_range ps (int seqno) (pages s) = Inr pgs \<and>
                s1 = s\<lparr>buddy_lists := bl, pages := pgs\<rparr>) \<or>
             (\<exists>pgs is. discontiguous (pages s) 0 (int seqno) (int num) = (pgs, is) \<and>
                s1 = s\<lparr>pages := pgs\<rparr>)"
    by (auto simp: request_pages_def Let_def split: sum.splits if_splits option.splits prod.splits)
  from update_buddy_lists_up[OF u] show "up_to_date s'" by simp
  assume g: "good_pages s"
  from s1 have "good_pages s1"
  proof
    assume "\<exists>ps pgs bl. mark_range ps (int seqno) (pages s) = Inr pgs \<and>
                s1 = s\<lparr>buddy_lists := bl, pages := pgs\<rparr>"
    then obtain ps pgs bl where m: "mark_range ps (int seqno) (pages s) = Inr pgs"
      and e: "s1 = s\<lparr>buddy_lists := bl, pages := pgs\<rparr>" by auto
    from mark_range_good[OF m] g e show ?thesis by (simp add: good_pages_def)
  next
    assume "\<exists>pgs is. discontiguous (pages s) 0 (int seqno) (int num) = (pgs, is) \<and>
                s1 = s\<lparr>pages := pgs\<rparr>"
    then obtain pgs "is" where m: "discontiguous (pages s) 0 (int seqno) (int num) = (pgs, is)"
      and e: "s1 = s\<lparr>pages := pgs\<rparr>" by auto
    from discontiguous_good[OF m] g e show ?thesis by (simp add: good_pages_def)
  qed
  with update_buddy_lists_up(2)[OF u] show "good_pages s'" by (simp add: good_pages_def)
qed

lemma reclaim_step:
  assumes "reclaim nd s = Inr s'"
  shows "buddy_step s s'"
proof -
  obtain p sq k where nd: "nd = (p, sq, k)" by (cases nd) auto
  from assms obtain r where d: "deallocate sq k (delete p s) = Inr (r, s')"
    by (auto simp: reclaim_def nd split: sum.splits)
  from deallocate_up[OF d] show ?thesis
    by (simp add: buddy_step_def good_pages_def delete_def)
qed

lemma evict_loop_step: "evict_loop k s = Inr s' \<Longrightarrow> buddy_step s s'"
proof (induction k arbitrary: s)
  case 0
  then show ?case by simp
next
  case (Suc k)
  from Suc.prems obtain nd rest s1 where
    l: "inactive_list s = nd # rest" and r: "reclaim nd (s\<lparr>inactive_list := rest\<rparr>) = Inr s1"
    and e: "evict_loop k s1 = Inr s'"
    by (auto split: list.splits sum.splits)
  have "buddy_step s (s\<lparr>inactive_list := rest\<rparr>)" by (simp add: buddy_step_same)
  from buddy_step_trans[OF buddy_step_trans[OF this reclaim_step[OF r]] Suc.IH[OF e]]
  show ?case .
qed

lemma insert_inactive_step:
  assumes "insert_inactive p sq k s = Inr s'"
  shows "buddy_step s s'"
proof -
  let ?s1 = "s\<lparr>inactive_list := inactive_list s @ [(p, sq, k)]\<rparr>"
  have a: "buddy_step s ?s1" by (simp add: buddy_step_same)
  from assms have "s' = ?s1 \<or> (\<exists>n. evict_loop n ?s1 = Inr s')"
    by (auto simp: insert_inactive_def Let_def split: if_splits)
  then show ?thesis
    using a buddy_step_trans[OF a evict_loop_step] by auto
qed

lemma demote_loop_step: "demote_loop k s = Inr s' \<Longrightarrow> buddy_step s s'"
proof (induction k arbitrary: s)
  case 0
  then show ?case by simp
next
  case (Suc k)
  from Suc.prems obtain p sq n rest s1 where
    l: "active_list s = (p, sq, n) # rest"
    and r: "insert_inactive p sq n (s\<lparr>active_list := rest\<rparr>) = Inr s1"
    and e: "demote_loop k s1 = Inr s'"
    by (auto split: list.splits sum.splits)
  have "buddy_step s (s\<lparr>active_list := rest\<rparr>)" by (simp add: buddy_step_same)
  from buddy_step_trans[OF buddy_step_trans[OF this insert_inactive_step[OF r]] Suc.IH[OF e]]
  show ?case .
qed

lemma promote_step:
  assumes "promote p s = Inr s'"
  shows "buddy_step s s'"
proof -
  obtain l i where f: "find_index p s = (l, i)" by (cases "find_index p s") auto
  define s1 where "s1 = s\<lparr>inactive_list := take (nat i) (inactive_list s) @ drop (Suc (nat i)) (inactive_list s),
                       active_list := active_list s @ [inactive_list s ! nat i]\<rparr>"
  have a: "buddy_step s s1" by (simp add: buddy_step_same s1_def)
  from assms f have "s' = s \<or> s' = s1 \<or> (\<exists>n. demote_loop n s1 = Inr s')"
    by (auto simp: promote_def Let_def s1_def split: if_splits)
  then show ?thesis
    using a buddy_step_trans[OF a demote_loop_step] by auto
qed

lemma reclaim_n_loop_step: "reclaim_n_loop k cur s = Inr s' \<Longrightarrow> buddy_step s s'"
proof (induction k arbitrary: cur s)
  case 0
  then show ?case by simp
next
  case (Suc k)
  from Suc.prems obtain nd s1 s2 where
    r: "reclaim nd s1 = Inr s2" and l: "reclaim_n_loop k (Some nd) s2 = Inr s'"
    and s1: "s1 = s\<lparr>inactive_list := tl (inactive_list s)\<rparr> \<or>
             s1 = s\<lparr>active_list := tl (active_list s)\<rparr> \<or> s1 = s"
    by (auto split: list.splits sum.splits option.splits)
  from s1 have "buddy_step s s1" by (auto simp: buddy_step_same)
  from buddy_step_trans[OF buddy_step_trans[OF this reclaim_step[OF r]] Suc.IH[OF l]]
  show ?case .
qed

lemma reclaim_deficit_step: "reclaim_deficit n s = Inr s' \<Longrightarrow> buddy_step s s'"
  by (auto simp: reclaim_deficit_def reclaim_n_pages_def dest: reclaim_n_loop_step split: if_splits)

lemma insert_pages_step: "insert_pages k seqno idx s = Inr s' \<Longrightarrow> buddy_step s s'"
proof (induction k arbitrary: idx s)
  case 0
  then show ?case by simp
next
  case (Suc k)
  show ?case
  proof (cases "\<exists>l. allocated_pages s seqno = Some l \<and> idx < length l")
    case False
    with Suc.prems show ?thesis by (auto split: option.splits)
  next
    case True
    then obtain l where l: "allocated_pages s seqno = Some l" "idx < length l" by auto
    with Suc.prems(1) obtain s1 where
      i: "insert_inactive (l ! idx) seqno idx s = Inr s1"
      and r: "insert_pages k seqno (Suc idx) s1 = Inr s'"
      by (auto split: sum.splits)
    from buddy_step_trans[OF insert_inactive_step[OF i] Suc.IH[OF r]] show ?thesis .
  qed
qed

lemma do_allocate_up:
  assumes "do_allocate seqno num s = Inr s'" and "good_pages s"
  shows "up_to_date s' \<and> good_pages s'"
proof -
  from assms(1) obtain s1 ids s2 where
    a: "reclaim_deficit (int num - count_free_pages s) s = Inr s1"
    and b: "request_pages seqno num s1 = Inr (ids, s2)"
    and c: "insert_pages (length ids) seqno 0 (allocate ids seqno s2) = Inr s'"
    by (auto simp: do_allocate_def split: sum.splits)
  from buddy_step_good[OF reclaim_deficit_step[OF a] assms(2)] have g1: "good_pages s1" .
  from request_pages_up[OF b] g1 have "up_to_date s2" "good_pages s2" by auto
  then have "up_to_date (allocate ids seqno s2)" "good_pages (allocate ids seqno s2)"
    by (simp_all add: up_to_date_def good_pages_def allocate_def)
  with insert_pages_step[OF c] show ?thesis
    by (auto dest: buddy_step_up buddy_step_good)
qed

lemma page_fault_up:
  assumes "page_fault seqno num s = Inr s'" and "good_pages s"
  shows "up_to_date s' \<and> good_pages s'"
proof -
  from assms(1) obtain s1 ids s2 s3 where
    a: "reclaim_deficit (1 - count_free_pages s) s = Inr s1"
    and b: "request_pages seqno 1 s1 = Inr (ids, s2)"
    and c: "allocate_idx ids seqno num s2 = Inr s3"
    and d: "insert_inactive (last ids) seqno num s3 = Inr s'"
    by (auto simp: page_fault_def split: sum.splits)
  from buddy_step_good[OF reclaim_deficit_step[OF a] assms(2)] have g1: "good_pages s1" .
  from request_pages_up[OF b] g1 have "up_to_date s2" "good_pages s2" by auto
  moreover from c have "pages s3 = pages s2" "buddy_lists s3 = buddy_lists s2"
    by (auto simp: allocate_idx_def split: if_splits option.splits)
  ultimately have "up_to_date s3" "good_pages s3"
    by (simp_all add: up_to_date_def good_pages_def)
  with insert_inactive_step[OF d] show ?thesis
    by (auto dest: buddy_step_up buddy_step_good)
qed

lemma do_free_up:
  assumes "do_free seqno num s = Inr s'" and "good_pages s"
  shows "up_to_date s' \<and> good_pages s'"
proof -
  from assms obtain p s1 where d: "deallocate seqno num s = Inr (p, s1)" and s': "s' = delete p s1"
    by (auto simp: do_free_def split: sum.splits)
  from deallocate_up[OF d] assms(2) show ?thesis
    by (simp add: s' delete_def up_to_date_def good_pages_def)
qed

lemma access_nonneg_allocated: "0 \<le> access s seqno num \<Longrightarrow> allocated_pages s \<noteq> Map.empty"
  by (auto simp: access_def)

lemma process_up:
  assumes "process (Instr a seqno num) s = Inr s'"
    and "good_pages s" and "up_to_date s \<or> allocated_pages s = Map.empty"
  shows "good_pages s'"
    and "up_to_date s' \<or> allocated_pages s' = Map.empty"
    and "a = ''A'' \<or> a = ''X'' \<or> a = ''F'' \<Longrightarrow> up_to_date s'"
proof -
  have "good_pages s' \<and> (up_to_date s' \<or> allocated_pages s' = Map.empty) \<and>
        (a = ''A'' \<or> a = ''X'' \<or> a = ''F'' \<longrightarrow> up_to_date s')"
  proof (rule process_cases[OF assms(1)])
    assume "do_allocate seqno num s = Inr s'"
    from do_allocate_up[OF this assms(2)] show ?thesis by simp
  next
    assume r: "0 \<le> access s seqno num" and p: "promote (access s seqno num) s = Inr s'"
    from access_nonneg_allocated[OF r] assms(3) have "up_to_date s" by simp
    with promote_step[OF p] assms(2) show ?thesis
      by (auto dest: buddy_step_up buddy_step_good)
  next
    assume "page_fault seqno num s = Inr s'"
    from page_fault_up[OF this assms(2)] show ?thesis by simp
  next
    assume "do_free seqno num s = Inr s'"
    from do_free_up[OF this assms(2)] show ?thesis by simp
  next
    assume "a \<noteq> ''A''" "a \<noteq> ''X''" "a \<noteq> ''F''" "s' = s"
    with assms(2,3) show ?thesis by simp
  qed
  then show "good_pages s'"
    and "up_to_date s' \<or> allocated_pages s' = Map.empty"
    and "a = ''A'' \<or> a = ''X'' \<or> a = ''F'' \<Longrightarrow> up_to_date s'"
    by auto
qed

lemma run_up:
  "run is s = Inr s' \<Longrightarrow> good_pages s \<Longrightarrow> up_to_date s \<or> allocated_pages s = Map.empty \<Longrightarrow>
     good_pages s' \<and> (up_to_date s' \<or> allocated_pages s' = Map.empty)"
proof (induction "is" arbitrary: s)
  case Nil
  then show ?case by simp
next
  case (Cons i "is")
  obtain a seqno num where i: "i = Instr a seqno num" by (cases i) auto
  from Cons.prems(1) obtain s1 where p: "process (Instr a seqno num) s = Inr s1"
    and r: "run is s1 = Inr s'"
    by (auto simp: i split: sum.splits)
  from process_up(1,2)[OF p Cons.prems(2,3)] Cons.IH[OF r] show ?case by simp
qed

lemma run_append:
  "run (is @ js) s = (case run is s of Inl e \<Rightarrow> Inl e | Inr s' \<Rightarrow> run js s')"
  by (induction "is" arbitrary: s) (auto split: sum.splits)

lemma up_to_date_partition:
  assumes "up_to_date s" and "good_pages s"
  shows "distinct (covered s) \<and> set (covered s) = {p. p < length (pages s) \<and> pages s ! p = - 1}"
proof -
  let ?f = "filter (\<lambda>i. pages s ! i < 0) [0..<length (pages s)]"
  from assms(1) have m: "mset (covered s) = mset ?f"
    by (simp add: up_to_date_def covered_def rebuild_cover(1))
  have "distinct ?f" by simp
  with m have d: "distinct (covered s)" by (metis mset_eq_imp_distinct_iff)
  from m have "set (covered s) = set ?f" by (rule mset_eq_setD)
  also have "\<dots> = {p. p < length (pages s) \<and> pages s ! p = - 1}"
  proof -
    have "pages s ! p < 0 \<longleftrightarrow> pages s ! p = - 1" if "p < length (pages s)" for p
    proof -
      from that assms(2) have "- 1 \<le> pages s ! p" by (simp add: good_pages_def)
      then show ?thesis by auto
    qed
    then show ?thesis by auto
  qed
  finally show ?thesis using d by simp
qed

text \<open>
  Claim C1 (partition invariant). Take any trace that a fresh simulator processes to
  the end and whose last event is an \<^verbatim>\<open>A\<close>, \<^verbatim>\<open>X\<close> or \<^verbatim>\<open>F\<close> event. In the state after
  that event, the page ids covered by the blocks of the buddy lists are pairwise
  different (no id is covered by two blocks), and they are exactly the indices of the
  page slots that hold \<open>-1\<close>.
\<close>

theorem partition_invariant:
  assumes "simulate MAX_PAGENO sa si (instrs @ [Instr a seqno num]) = Inr s"
    and "a = ''A'' \<or> a = ''X'' \<or> a = ''F''"
  shows "distinct (covered s) \<and> set (covered s) = {p. p < length (pages s) \<and> pages s ! p = - 1}"
proof -
  from assms(1) obtain s0 s1 where i: "init MAX_PAGENO sa si = Inr s0"
    and r: "run instrs s0 = Inr s1" and p: "process (Instr a seqno num) s1 = Inr s"
    by (auto simp: simulate_def run_append split: sum.splits)
  from init_Inr[OF i] have g0: "good_pages s0" and e0: "allocated_pages s0 = Map.empty"
    by (simp_all add: good_pages_def)
  from run_up[OF r g0] e0 have "good_pages s1" "up_to_date s1 \<or> allocated_pages s1 = Map.empty"
    by simp_all
  from process_up(1,3)[OF p this] assms(2) have "good_pages s" "up_to_date s" by simp_all
  then show ?thesis using up_to_date_partition by blast
qed

theorem partition_invariant_witness:
  "\<not> isl (simulate 6 2 2 ([Instr ''A'' 1 3, Instr ''X'' 1 2, Instr ''A'' 2 2] @ [Instr ''F'' 1 2])) \<and>
   distinct (covered (projr (simulate 6 2 2
       ([Instr ''A'' 1 3, Instr ''X'' 1 2, Instr ''A'' 2 2] @ [Instr ''F'' 1 2])))) \<and>
   set (covered (projr (simulate 6 2 2
       ([Instr ''A'' 1 3, Instr ''X'' 1 2, Instr ''A'' 2 2] @ [Instr ''F'' 1 2])))) =
     {p. p < length (pages (projr (simulate 6 2 2
            ([Instr ''A'' 1 3, Instr ''X'' 1 2, Instr ''A'' 2 2] @ [Instr ''F'' 1 2])))) \<and>
         pages (projr (simulate 6 2 2
            ([Instr ''A'' 1 3, Instr ''X'' 1 2, Instr ''A'' 2 2] @ [Instr ''F'' 1 2]))) ! p = - 1}"
proof -
  have h: "\<not> isl (simulate 6 2 2
      ([Instr ''A'' 1 3, Instr ''X'' 1 2, Instr ''A'' 2 2] @ [Instr ''F'' 1 2]))"
    by code_simp
  from partition_invariant[OF Inr_projr[OF h]] h show ?thesis by simp
qed

subsection \<open>The placement rule\<close>

lemma digit_chunks_place: "digit_chunks cs j a = place a (map (\<lambda>i. i + j) (ones cs))"
proof (induction cs arbitrary: j a)
  case Nil
  then show ?case by simp
next
  case (Cons c cs)
  then show ?case by (simp add: comp_def)
qed

lemma filter_upt_trim:
  assumes "n \<le> m" and "\<And>j. n \<le> j \<Longrightarrow> j < m \<Longrightarrow> \<not> Q j"
  shows "filter Q [0..<m] = filter Q [0..<n]"
proof -
  from assms(1) have "[0..<m] = [0..<n] @ [n..<m]"
    by (metis le_add_diff_inverse upt_add_eq_append zero_le)
  moreover have "filter Q [n..<m] = []"
    using assms(2) by (auto simp: filter_empty_conv)
  ultimately show ?thesis by simp
qed

lemma set_bits_rec:
  assumes "0 < L"
  shows "set_bits L = (if odd L then [0] else []) @ map Suc (set_bits (L div 2))"
proof -
  let ?P = "\<lambda>j. odd (L div 2 ^ j)"
  let ?Q = "\<lambda>j. odd (L div 2 div 2 ^ j)"
  from assms have u: "[0..<L] = 0 # map Suc [0..<L - 1]"
    by (metis One_nat_def Suc_pred map_Suc_upt upt_conv_Cons)
  have PQ: "?P (Suc j) = ?Q j" for j
    by (simp add: div_mult2_eq)
  have "filter ?P (map Suc [0..<L - 1]) = map Suc (filter ?Q [0..<L - 1])"
    by (simp add: filter_map comp_def PQ del: power_Suc)
  also have "filter ?Q [0..<L - 1] = filter ?Q [0..<L div 2]"
  proof (rule filter_upt_trim)
    from assms show "L div 2 \<le> L - 1" by arith
  next
    fix j assume "L div 2 \<le> j"
    also have "j < 2 ^ j" by (rule less_exp)
    finally have "L div 2 div 2 ^ j = 0" by simp
    then show "\<not> ?Q j" by simp
  qed
  finally show ?thesis
    by (simp add: set_bits_def u del: upt_Suc)
qed

lemma ones_bin_rev: "ones (bin_rev L) = set_bits L"
proof (induction L rule: bin_rev.induct)
  case (1 n)
  show ?case
  proof (cases "n < 2")
    case True
    then have "n = 0 \<or> n = 1" by arith
    then show ?thesis
    proof
      assume "n = 0"
      then show ?thesis by (simp add: bin_rev.simps set_bits_def)
    next
      assume "n = 1"
      then show ?thesis by (simp add: bin_rev.simps set_bits_def)
    qed
  next
    case False
    have br: "bin_rev n = (if even n then CHR ''0'' else CHR ''1'') # bin_rev (n div 2)"
      using False by (subst bin_rev.simps) simp
    from False have "0 < n" by simp
    from set_bits_rec[OF this] 1[OF False] show ?thesis
      by (simp add: br)
  qed
qed

lemma digit_chunks_run_chunks: "digit_chunks (bin_rev L) 0 S = run_chunks S L"
  by (simp add: digit_chunks_place ones_bin_rev run_chunks_def)

lemma chunks_of_runs_run_chunks:
  "chunks_of_runs rs = concat (map (\<lambda>(S, L). run_chunks S L) rs)"
  by (simp add: chunks_of_runs_def digit_chunks_run_chunks case_prod_unfold)

lemma map_fst_place: "map fst (place a js) = js"
  by (induction js arbitrary: a) simp_all

lemma run_chunks_order:
  assumes "c \<in> set (run_chunks S L)"
  shows "2 ^ fst c \<le> L"
proof -
  from assms have "fst c \<in> set (map fst (run_chunks S L))" by simp
  then have "fst c \<in> set (set_bits L)" by (simp add: run_chunks_def map_fst_place)
  then have "odd (L div 2 ^ fst c)" by (simp add: set_bits_def)
  then have "L div 2 ^ fst c \<noteq> 0" by (metis even_zero)
  then show ?thesis by (simp add: div_eq_0_iff not_less)
qed

lemma free_runs_bounds:
  "r \<in> set (free_runs S xs) \<Longrightarrow> S \<le> fst r \<and> fst r + snd r \<le> S + length xs"
proof (induction S xs rule: free_runs.induct)
  case (1 S)
  then show ?case by (simp add: free_runs.simps)
next
  case (2 S x xs)
  show ?case
  proof (cases "x < 0")
    case False
    with 2(2) 2(3) show ?thesis by (auto simp: free_runs.simps)
  next
    case True
    define tw where "tw = takeWhile (\<lambda>y. y < 0) xs"
    define dw where "dw = dropWhile (\<lambda>y. y < 0) xs"
    have len: "length tw + length dw = length xs"
      unfolding tw_def dw_def by (metis length_append takeWhile_dropWhile_id)
    from True 2(3) have "r = (S, Suc (length tw)) \<or> r \<in> set (free_runs (S + Suc (length tw)) dw)"
      by (simp add: free_runs.simps tw_def dw_def Let_def)
    then show ?thesis
    proof
      assume "r = (S, Suc (length tw))"
      with len show ?thesis by simp
    next
      assume "r \<in> set (free_runs (S + Suc (length tw)) dw)"
      then have "S + Suc (length tw) \<le> fst r \<and> fst r + snd r \<le> S + Suc (length tw) + length dw"
        using 2(1)[OF True refl] by (simp add: tw_def dw_def)
      with len show ?thesis by simp
    qed
  qed
qed

lemma add_chunks_nth:
  "\<forall>c\<in>set cs. fst c < length bl \<Longrightarrow> j < length bl \<Longrightarrow>
     add_chunks bl cs ! j = bl ! j @ map snd (filter (\<lambda>c. fst c = j) cs)"
proof (induction cs arbitrary: bl)
  case Nil
  then show ?case by simp
next
  case (Cons c cs)
  from Cons.prems have "\<forall>d\<in>set cs. fst d < length (add_chunk bl c)" and "j < length (add_chunk bl c)"
    by simp_all
  from Cons.IH[OF this] Cons.prems show ?case
    by (auto simp: add_chunk_def nth_list_update)
qed

lemma rebuild_placement_aux:
  assumes "length pgs < 2 ^ n"
  shows "rebuild pgs n = Inr (placement pgs n)"
proof -
  let ?cs = "chunks_of_runs (free_runs 0 pgs)"
  have ok: "\<forall>c\<in>set ?cs. fst c < length (replicate n ([]::nat list))"
  proof
    fix c assume "c \<in> set ?cs"
    then obtain S L where r: "(S, L) \<in> set (free_runs 0 pgs)" and c: "c \<in> set (run_chunks S L)"
      by (auto simp: chunks_of_runs_run_chunks)
    from free_runs_bounds[OF r] have "L \<le> length pgs" by simp
    with run_chunks_order[OF c] assms have "(2::nat) ^ fst c < 2 ^ n" by linarith
    then have "fst c < n" by (simp add: power_strict_increasing_iff)
    then show "fst c < length (replicate n ([]::nat list))" by simp
  qed
  have "add_chunks (replicate n []) ?cs = placement pgs n"
  proof (rule nth_equalityI)
    show "length (add_chunks (replicate n []) ?cs) = length (placement pgs n)"
      by (simp add: placement_def)
  next
    fix j assume "j < length (add_chunks (replicate n []) ?cs)"
    then have j: "j < n" by simp
    then have "j < length (replicate n ([]::nat list))" by simp
    from add_chunks_nth[OF ok this] j
    show "add_chunks (replicate n []) ?cs ! j = placement pgs n ! j"
      by (simp add: placement_def chunks_of_runs_run_chunks)
  qed
  with ok show ?thesis by (simp add: rebuild_placed placed_def)
qed

lemma run_chunks_cover:
  "concat (map (\<lambda>(j, a). [a..<a + 2 ^ j]) (run_chunks S L)) = [S..<S + L]"
proof -
  have "(\<lambda>(j, a). [a..<a + 2 ^ j]) = chunk_range"
    by (auto simp: chunk_range_def fun_eq_iff)
  then show ?thesis
    using ranges_run_chunks[of L S] by (simp add: digit_chunks_run_chunks)
qed

text \<open>
  Claim C4 (placement rule of the free-list rebuild). When the buddy lists suffice for
  the page array (it has fewer than \<open>2 ^ buddy_count\<close> slots, as \<^verbatim>\<open>__init__\<close>
  arranges), \<^verbatim>\<open>update_buddy_lists\<close> returns without raising and leaves, as buddy list
  of order \<open>j\<close>, the start ids of the chunks of order \<open>j\<close> in the order of the scan: the
  maximal free runs from left to right, and for a run of length \<open>L\<close> at \<open>S\<close> one chunk per
  set bit of \<open>L\<close>, least significant bit first, each chunk right behind the previous one.
  The chunks of a run, taken in that order, cover exactly \<open>S, \<dots>, S + L - 1\<close>.
\<close>

theorem rebuild_placement:
  assumes "length (pages s) < 2 ^ length (buddy_lists s)"
  shows "update_buddy_lists s =
           Inr (s\<lparr>buddy_lists := placement (pages s) (length (buddy_lists s))\<rparr>) \<and>
         (\<forall>S L. concat (map (\<lambda>(j, a). [a..<a + 2 ^ j]) (run_chunks S L)) = [S..<S + L])"
  using rebuild_placement_aux[OF assms] run_chunks_cover
  by (simp add: update_buddy_lists_def)

theorem rebuild_placement_witness:
  "length (pages (projr (simulate 8 2 2 [Instr ''A'' 1 3])))
     < 2 ^ length (buddy_lists (projr (simulate 8 2 2 [Instr ''A'' 1 3]))) \<and>
   map_sum id buddy_lists (update_buddy_lists (projr (simulate 8 2 2 [Instr ''A'' 1 3])))
     = Inr (placement (pages (projr (simulate 8 2 2 [Instr ''A'' 1 3]))) 4) \<and>
   placement (pages (projr (simulate 8 2 2 [Instr ''A'' 1 3]))) 4 = [[0, 3], [], [4], []] \<and>
   pages (projr (simulate 8 2 2 [Instr ''A'' 1 3])) = [- 1, 1, 1, - 1, - 1, - 1, - 1, - 1]"
proof -
  have h: "length (pages (projr (simulate 8 2 2 [Instr ''A'' 1 3])))
     < 2 ^ length (buddy_lists (projr (simulate 8 2 2 [Instr ''A'' 1 3])))"
    by code_simp
  have l: "length (buddy_lists (projr (simulate 8 2 2 [Instr ''A'' 1 3]))) = 4"
    by code_simp
  have p: "placement (pages (projr (simulate 8 2 2 [Instr ''A'' 1 3]))) 4 = [[0, 3], [], [4], []]"
    by code_simp
  have q: "pages (projr (simulate 8 2 2 [Instr ''A'' 1 3])) = [- 1, 1, 1, - 1, - 1, - 1, - 1, - 1]"
    by code_simp
  from rebuild_placement[OF h] h l p q show ?thesis by simp
qed

subsection \<open>The residency invariant\<close>

lemma access_cong: "allocated_pages s' = allocated_pages s \<Longrightarrow> access s' = access s"
  by (simp add: access_def fun_eq_iff)

lemma core_cong:
  assumes "pages s' = pages s" and "allocated_pages s' = allocated_pages s"
    and "mset (nodes s') = mset (nodes s)" and "core P s"
  shows "core P s'"
proof -
  from assms(3) have st: "set (nodes s') = set (nodes s)" by (rule mset_eq_setD)
  from assms(3) have "mset (map fst (nodes s')) = mset (map fst (nodes s))"
    by (metis mset_map)
  then have d: "distinct (map fst (nodes s')) = distinct (map fst (nodes s))"
    by (rule mset_eq_imp_distinct_iff)
  note a = access_cong[OF assms(2)]
  from assms(4) show ?thesis
    unfolding core_def node_ok_def pending_ok_def good_pages_def a st d assms(1) .
qed

lemma core_pop:
  assumes c: "core P s" and m: "mset (nodes s) = add_mset (p, sq, k) (mset (nodes s0))"
    and pg: "pages s0 = pages s" and al: "allocated_pages s0 = allocated_pages s"
  shows "core (insert (sq, k) P) s0" and "(sq, k) \<notin> P" and "access s0 sq k = p" and "0 \<le> p"
proof -
  note a = access_cong[OF al]
  from m have st: "set (nodes s) = insert (p, sq, k) (set (nodes s0))"
    by (metis mset_eq_setD set_mset_add_mset_insert set_mset_mset)
  from m have "mset (map fst (nodes s)) = mset (p # map fst (nodes s0))"
    by (metis fst_conv image_mset_add_mset mset.simps(2) mset_map)
  then have "distinct (map fst (nodes s)) = distinct (p # map fst (nodes s0))"
    by (rule mset_eq_imp_distinct_iff)
  with c have d: "distinct (map fst (nodes s0))" and np: "p \<notin> fst ` set (nodes s0)"
    by (auto simp: core_def)
  from c st have nk: "node_ok s (p, sq, k)" by (auto simp: core_def)
  then show ap: "access s0 sq k = p" and p0: "0 \<le> p" by (simp_all add: node_ok_def a)
  have pin: "p \<in> fst ` set (nodes s)" using st by force
  show nP: "(sq, k) \<notin> P"
  proof
    assume "(sq, k) \<in> P"
    with c have "pending_ok s (sq, k)" by (auto simp: core_def)
    with nk pin show False by (simp add: pending_ok_def node_ok_def)
  qed
  have pend: "pending_ok s0 pos" if "pos \<in> insert (sq, k) P" for pos
  proof (cases "pos = (sq, k)")
    case True
    with nk np show ?thesis by (simp add: pending_ok_def node_ok_def a pg)
  next
    case False
    with that c have "pending_ok s pos" by (auto simp: core_def)
    then show ?thesis using st by (auto simp: pending_ok_def a pg)
  qed
  have inj: "inj_on (\<lambda>pos. access s0 (fst pos) (snd pos)) (insert (sq, k) P)"
  proof -
    from c have i1: "inj_on (\<lambda>pos. access s (fst pos) (snd pos)) P" by (simp add: core_def)
    have i2: "access s (fst pos) (snd pos) \<noteq> p" if "pos \<in> P" for pos
    proof -
      from that c have "pending_ok s pos" by (auto simp: core_def)
      with pin show ?thesis by (auto simp: pending_ok_def)
    qed
    from nk have e: "access s sq k = p" by (simp add: node_ok_def)
    show ?thesis
      unfolding a inj_on_insert
    proof (intro conjI)
      show "inj_on (\<lambda>pos. access s (fst pos) (snd pos)) P" by (rule i1)
      show "access s (fst (sq, k)) (snd (sq, k))
          \<notin> (\<lambda>pos. access s (fst pos) (snd pos)) ` (P - {(sq, k)})"
        using i2 e by force
    qed
  qed
  have ent: "(sq', k') \<in> insert (sq, k) P \<or> (access s0 sq' k', sq', k') \<in> set (nodes s0)"
    if "0 \<le> access s0 sq' k'" for sq' k'
  proof -
    from that c have "(sq', k') \<in> P \<or> (access s sq' k', sq', k') \<in> set (nodes s)"
      by (simp add: core_def a)
    then show ?thesis using st by (auto simp: a)
  qed
  from c have "good_pages s0" "\<forall>sq k. - 1 \<le> access s0 sq k" "\<forall>nd\<in>set (nodes s0). node_ok s0 nd"
    using st by (auto simp: core_def good_pages_def pg a node_ok_def)
  with d pend inj ent show "core (insert (sq, k) P) s0"
    unfolding core_def by blast
qed

lemma core_push:
  assumes c: "core (insert (sq, k) P) s0" and nP: "(sq, k) \<notin> P" and ap: "access s0 sq k = p"
    and m: "mset (nodes s) = add_mset (p, sq, k) (mset (nodes s0))"
    and pg: "pages s = pages s0" and al: "allocated_pages s = allocated_pages s0"
  shows "core P s"
proof -
  note a = access_cong[OF al]
  from m have st: "set (nodes s) = insert (p, sq, k) (set (nodes s0))"
    by (metis mset_eq_setD set_mset_add_mset_insert set_mset_mset)
  from c have pk: "pending_ok s0 (sq, k)" by (simp add: core_def)
  with ap have np: "p \<notin> fst ` set (nodes s0)" by (simp add: pending_ok_def)
  from m have "mset (map fst (nodes s)) = mset (p # map fst (nodes s0))"
    by (metis fst_conv image_mset_add_mset mset.simps(2) mset_map)
  then have "distinct (map fst (nodes s)) = distinct (p # map fst (nodes s0))"
    by (rule mset_eq_imp_distinct_iff)
  with c np have d: "distinct (map fst (nodes s))" by (auto simp: core_def)
  have nk: "node_ok s nd" if "nd \<in> set (nodes s)" for nd
  proof (cases "nd = (p, sq, k)")
    case True
    with pk ap show ?thesis by (simp add: node_ok_def pending_ok_def a pg)
  next
    case False
    with that st c have "node_ok s0 nd" by (auto simp: core_def)
    then show ?thesis by (simp add: node_ok_def a pg)
  qed
  from c have inj: "inj_on (\<lambda>pos. access s0 (fst pos) (snd pos)) (insert (sq, k) P)"
    by (simp add: core_def)
  have pend: "pending_ok s pos" if "pos \<in> P" for pos
  proof -
    from that c have q: "pending_ok s0 pos" by (auto simp: core_def)
    from that nP have "pos \<noteq> (sq, k)" by auto
    with inj that have "access s0 (fst pos) (snd pos) \<noteq> access s0 sq k"
      by (auto simp: inj_on_def)
    with q ap show ?thesis using st by (auto simp: pending_ok_def a pg)
  qed
  have ent: "(sq', k') \<in> P \<or> (access s sq' k', sq', k') \<in> set (nodes s)"
    if "0 \<le> access s sq' k'" for sq' k'
  proof -
    from that c have "(sq', k') \<in> insert (sq, k) P \<or> (access s0 sq' k', sq', k') \<in> set (nodes s0)"
      by (simp add: core_def a)
    then show ?thesis using st ap by (auto simp: a)
  qed
  from inj have "inj_on (\<lambda>pos. access s (fst pos) (snd pos)) P"
    by (auto simp: a inj_on_def)
  moreover from c have "good_pages s" "\<forall>sq k. - 1 \<le> access s sq k"
    by (auto simp: core_def good_pages_def pg a)
  ultimately show ?thesis using d nk pend ent unfolding core_def by blast
qed

lemma delete_loop_absent: "p \<notin> fst ` set xs \<Longrightarrow> delete_loop i p xs = xs"
proof (induction i p xs rule: delete_loop.induct)
  case (1 i p xs)
  show ?case
  proof (cases "i < length xs")
    case False
    then show ?thesis by (subst delete_loop.simps) simp
  next
    case True
    with 1(3) have ne: "fst (xs ! i) \<noteq> p" by (metis image_eqI nth_mem)
    from 1(2)[OF True ne 1(3)] True ne show ?thesis
      by (subst delete_loop.simps) simp
  qed
qed

lemma delete_absent: "p \<notin> fst ` set (nodes s) \<Longrightarrow> delete p s = s"
  by (simp add: delete_def nodes_def delete_loop_absent image_Un)

lemma filter_remove1_fst:
  "distinct (map fst xs) \<Longrightarrow> x \<in> set xs \<Longrightarrow>
     filter (\<lambda>n. fst n \<noteq> fst x) xs = remove1 x xs \<and> fst x \<notin> fst ` set (remove1 x xs)"
proof (induction xs)
  case Nil
  then show ?case by simp
next
  case (Cons y ys)
  show ?case
  proof (cases "y = x")
    case True
    from Cons.prems(1) have "fst y \<notin> fst ` set ys" by simp
    then have "fst n \<noteq> fst y" if "n \<in> set ys" for n using that by (metis image_eqI)
    then have "filter (\<lambda>n. fst n \<noteq> fst y) ys = ys" by (simp add: filter_id_conv)
    with True \<open>fst y \<notin> fst ` set ys\<close> show ?thesis by simp
  next
    case False
    with Cons.prems have x: "x \<in> set ys" and d: "distinct (map fst ys)" by auto
    from Cons.prems(1) x have "fst y \<noteq> fst x" by force
    with Cons.IH[OF d x] False show ?thesis by auto
  qed
qed

lemma delete_loop_filter:
  "distinct (map fst xs) \<Longrightarrow> \<forall>j<i. j < length xs \<longrightarrow> fst (xs ! j) \<noteq> p \<Longrightarrow>
     delete_loop i p xs = filter (\<lambda>n. fst n \<noteq> p) xs"
proof (induction i p xs rule: delete_loop.induct)
  case (1 i p xs)
  show ?case
  proof (cases "i < length xs")
    case False
    have "fst x \<noteq> p" if "x \<in> set xs" for x
    proof -
      from that obtain j where j: "j < length xs" "x = xs ! j" by (auto simp: in_set_conv_nth)
      with False have "j < i" by simp
      with 1(4) j show ?thesis by simp
    qed
    then have "filter (\<lambda>n. fst n \<noteq> p) xs = xs" by (simp add: filter_id_conv)
    with False show ?thesis by (subst delete_loop.simps) simp
  next
    case True
    show ?thesis
    proof (cases "fst (xs ! i) = p")
      case eq: True
      from True have "xs ! i \<in> set xs" by simp
      from filter_remove1_fst[OF 1(3) this] eq
      have f: "filter (\<lambda>n. fst n \<noteq> p) xs = remove1 (xs ! i) xs"
        and n: "p \<notin> fst ` set (remove1 (xs ! i) xs)" by auto
      from delete_loop_absent[OF n] f True eq show ?thesis
        by (subst delete_loop.simps) simp
    next
      case ne: False
      have "\<forall>j<Suc i. j < length xs \<longrightarrow> fst (xs ! j) \<noteq> p"
        using 1(4) ne by (auto simp: less_Suc_eq)
      from 1(2)[OF True ne 1(3) this] True ne show ?thesis
        by (subst delete_loop.simps) simp
    qed
  qed
qed

lemma access_update:
  assumes "allocated_pages s' = (allocated_pages s)(sq \<mapsto> l[k := v])"
    and "allocated_pages s sq = Some l" and "k < length l"
  shows "access s' sq' k' = (if sq' = sq \<and> k' = k then v else access s sq' k')"
  using assms by (auto simp: access_def nth_list_update)

lemma deallocate_hit:
  assumes "deallocate sq k s = Inr (r, s')" and "0 \<le> access s sq k"
  shows "r = access s sq k"
    and "\<exists>l. allocated_pages s sq = Some l \<and> k < length l \<and>
           allocated_pages s' = (allocated_pages s)(sq \<mapsto> l[k := - 1])"
    and "nat r < length (pages s)" and "pages s' = (pages s)[nat r := - 1]"
    and "inactive_list s' = inactive_list s" and "active_list s' = active_list s"
proof -
  from assms obtain l s1 where r: "r = access s sq k" and l: "allocated_pages s sq = Some l" "k < length l"
    and n: "nat r < length (pages s)"
    and s1: "s1 = s\<lparr>pages := (pages s)[nat r := - 1],
                    allocated_pages := (allocated_pages s)(sq \<mapsto> l[k := - 1])\<rparr>"
    and u: "update_buddy_lists s1 = Inr s'"
    by (auto simp: deallocate_def Let_def split: sum.splits if_splits option.splits)
  from update_buddy_lists_Inr[OF u] obtain bl where s': "s' = s1\<lparr>buddy_lists := bl\<rparr>" by auto
  show "r = access s sq k" by (rule r)
  show "nat r < length (pages s)" by (rule n)
  from l s' s1 show "\<exists>l. allocated_pages s sq = Some l \<and> k < length l \<and>
           allocated_pages s' = (allocated_pages s)(sq \<mapsto> l[k := - 1])" by simp
  from s' s1 show "pages s' = (pages s)[nat r := - 1]"
    and "inactive_list s' = inactive_list s" and "active_list s' = active_list s" by simp_all
qed

lemma deallocate_miss:
  assumes "deallocate sq k s = Inr (r, s')" and "access s sq k < 0"
  shows "r = access s sq k" and "pages s' = pages s" and "allocated_pages s' = allocated_pages s"
    and "inactive_list s' = inactive_list s" and "active_list s' = active_list s"
proof -
  from assms have r: "r = access s sq k" and u: "update_buddy_lists s = Inr s'"
    by (auto simp: deallocate_def Let_def split: sum.splits if_splits option.splits)
  from update_buddy_lists_Inr[OF u] obtain bl where s': "s' = s\<lparr>buddy_lists := bl\<rparr>" by auto
  show "r = access s sq k" by (rule r)
  from s' show "pages s' = pages s" and "allocated_pages s' = allocated_pages s"
    and "inactive_list s' = inactive_list s" and "active_list s' = active_list s" by simp_all
qed

lemma up_to_date_cover: "up_to_date s \<Longrightarrow> good_pages s \<Longrightarrow> cover_ok s"
  using up_to_date_partition[of s] by (simp add: cover_ok_def)

lemma deallocate_core_hit:
  assumes d: "deallocate sq k s = Inr (r, s')" and c: "core (insert (sq, k) P) s"
    and nP: "(sq, k) \<notin> P" and h: "0 \<le> access s sq k"
  shows "core P s'"
proof -
  define p where "p = access s sq k"
  from deallocate_hit[OF d h] obtain l where r: "r = p"
    and l: "allocated_pages s sq = Some l" "k < length l"
    and al: "allocated_pages s' = (allocated_pages s)(sq \<mapsto> l[k := - 1])"
    and pg: "pages s' = (pages s)[nat p := - 1]"
    and ns: "nodes s' = nodes s"
    by (auto simp: p_def nodes_def)
  note a = access_update[OF al l]
  from c have pk: "pending_ok s (sq, k)" by (simp add: core_def)
  then have p0: "0 \<le> p" and pn: "p \<notin> fst ` set (nodes s)"
    by (simp_all add: pending_ok_def p_def)
  from c have g: "good_pages s'"
    using good_pages_update[of s "- 1" "nat p"] by (simp add: core_def good_pages_def pg)
  from c have m1: "\<forall>sq' k'. - 1 \<le> access s' sq' k'" by (simp add: core_def a)
  from c have dist: "distinct (map fst (nodes s'))" by (simp add: core_def ns)
  have nk: "node_ok s' nd" if "nd \<in> set (nodes s')" for nd
  proof -
    from that c have n: "node_ok s nd" by (simp add: core_def ns)
    from that pn have ne: "fst nd \<noteq> p" by (auto simp: ns)
    with n have "(fst (snd nd), snd (snd nd)) \<noteq> (sq, k)" by (auto simp: node_ok_def p_def)
    then have "access s' (fst (snd nd)) (snd (snd nd)) = access s (fst (snd nd)) (snd (snd nd))"
      by (auto simp: a)
    moreover from n ne p0 have "nat (fst nd) \<noteq> nat p" by (auto simp: node_ok_def)
    ultimately show ?thesis using n by (simp add: node_ok_def pg)
  qed
  have ent: "(sq', k') \<in> P \<or> (access s' sq' k', sq', k') \<in> set (nodes s')"
    if "0 \<le> access s' sq' k'" for sq' k'
  proof -
    from that have ne: "\<not> (sq' = sq \<and> k' = k)" by (auto simp: a)
    then have e: "access s' sq' k' = access s sq' k'" by (auto simp: a)
    with that c have "(sq', k') \<in> insert (sq, k) P \<or> (access s sq' k', sq', k') \<in> set (nodes s)"
      by (simp add: core_def)
    with ne show ?thesis by (auto simp: e ns)
  qed
  from c have inj: "inj_on (\<lambda>pos. access s (fst pos) (snd pos)) (insert (sq, k) P)"
    by (simp add: core_def)
  have same: "access s' (fst pos) (snd pos) = access s (fst pos) (snd pos)" if "pos \<in> P" for pos
  proof -
    from that nP have "pos \<noteq> (sq, k)" by auto
    then have "\<not> (fst pos = sq \<and> snd pos = k)" by (cases pos) auto
    then show ?thesis by (auto simp: a)
  qed
  have pend: "pending_ok s' pos" if "pos \<in> P" for pos
  proof -
    from that c have q: "pending_ok s pos" by (simp add: core_def)
    from that nP have "pos \<noteq> (sq, k)" by auto
    with inj that have "access s (fst pos) (snd pos) \<noteq> p"
      by (auto simp: inj_on_def p_def)
    with q p0 have "nat (access s (fst pos) (snd pos)) \<noteq> nat p" by (auto simp: pending_ok_def)
    with q show ?thesis by (simp add: pending_ok_def same[OF that] pg ns)
  qed
  have "inj_on (\<lambda>pos. access s' (fst pos) (snd pos)) P"
  proof (rule inj_onI)
    fix x y assume "x \<in> P" "y \<in> P" "access s' (fst x) (snd x) = access s' (fst y) (snd y)"
    with same inj show "x = y" by (auto simp: inj_on_def)
  qed
  with g m1 dist nk ent pend show ?thesis unfolding core_def by blast
qed

lemma deallocate_core_miss:
  assumes d: "deallocate sq k s = Inr (r, s')" and c: "core P s" and h: "access s sq k < 0"
  shows "core P s'"
  using deallocate_miss[OF d h] c by (intro core_cong[of s' s]) (simp_all add: nodes_def)

lemma core_good: "core P s \<Longrightarrow> good_pages s"
  by (simp add: core_def)

lemma reclaim_inv:
  assumes r: "reclaim (p, sq, k) s = Inr s'" and c: "core (insert (sq, k) P) s"
    and nP: "(sq, k) \<notin> P" and ap: "access s sq k = p"
  shows "inv P s'"
proof -
  from c have pk: "pending_ok s (sq, k)" by (simp add: core_def)
  with ap have "p \<notin> fst ` set (nodes s)" and h: "0 \<le> access s sq k"
    by (simp_all add: pending_ok_def)
  then have del: "delete p s = s" by (simp add: delete_absent)
  from r obtain x where d: "deallocate sq k s = Inr (x, s')"
    by (auto simp: reclaim_def del split: sum.splits)
  from deallocate_core_hit[OF d c nP h] have c': "core P s'" .
  from deallocate_up[OF d] core_good[OF c] have "up_to_date s'" "good_pages s'" by auto
  with c' show ?thesis by (simp add: inv_def up_to_date_cover)
qed

lemma reclaim_miss_inv:
  assumes r: "reclaim (p, sq, k) s = Inr s'" and c: "core P s"
    and np: "p \<notin> fst ` set (nodes s)" and h: "access s sq k < 0"
  shows "inv P s'"
proof -
  from np have del: "delete p s = s" by (simp add: delete_absent)
  from r obtain x where d: "deallocate sq k s = Inr (x, s')"
    by (auto simp: reclaim_def del split: sum.splits)
  from deallocate_core_miss[OF d c h] have c': "core P s'" .
  from deallocate_up[OF d] core_good[OF c] have "up_to_date s'" "good_pages s'" by auto
  with c' show ?thesis by (simp add: inv_def up_to_date_cover)
qed

lemma evict_loop_inv: "evict_loop n s = Inr s' \<Longrightarrow> inv P s \<Longrightarrow> inv P s'"
proof (induction n arbitrary: s)
  case 0
  then show ?case by simp
next
  case (Suc n)
  from Suc.prems(1) obtain nd rest s1 where
    l: "inactive_list s = nd # rest" and r: "reclaim nd (s\<lparr>inactive_list := rest\<rparr>) = Inr s1"
    and e: "evict_loop n s1 = Inr s'"
    by (auto split: list.splits sum.splits)
  obtain p sq k where nd: "nd = (p, sq, k)" by (cases nd) auto
  let ?s0 = "s\<lparr>inactive_list := rest\<rparr>"
  from Suc.prems(2) have c: "core P s" by (simp add: inv_def)
  have m: "mset (nodes s) = add_mset (p, sq, k) (mset (nodes ?s0))"
    by (simp add: nodes_def l nd)
  from core_pop[OF c m] have "core (insert (sq, k) P) ?s0" "(sq, k) \<notin> P" "access ?s0 sq k = p"
    by simp_all
  from reclaim_inv[OF r[unfolded nd] this] have "inv P s1" .
  from Suc.IH[OF e this] show ?case .
qed

lemma insert_inactive_inv:
  assumes i: "insert_inactive p sq k s = Inr s'" and v: "inv (insert (sq, k) P) s"
    and nP: "(sq, k) \<notin> P" and ap: "access s sq k = p"
  shows "inv P s'"
proof -
  let ?s1 = "s\<lparr>inactive_list := inactive_list s @ [(p, sq, k)]\<rparr>"
  from v have c: "core (insert (sq, k) P) s" and co: "cover_ok s" by (simp_all add: inv_def)
  have m: "mset (nodes ?s1) = add_mset (p, sq, k) (mset (nodes s))"
    by (simp add: nodes_def)
  from core_push[OF c nP ap m] have "core P ?s1" by simp
  moreover from co have "cover_ok ?s1" by (simp add: cover_ok_def covered_def)
  ultimately have v1: "inv P ?s1" by (simp add: inv_def)
  from i have "s' = ?s1 \<or> (\<exists>n. evict_loop n ?s1 = Inr s')"
    by (auto simp: insert_inactive_def Let_def split: if_splits)
  then show ?thesis using v1 evict_loop_inv by blast
qed

lemma demote_loop_inv: "demote_loop n s = Inr s' \<Longrightarrow> inv P s \<Longrightarrow> inv P s'"
proof (induction n arbitrary: s)
  case 0
  then show ?case by simp
next
  case (Suc n)
  from Suc.prems(1) obtain p sq k rest s1 where
    l: "active_list s = (p, sq, k) # rest"
    and r: "insert_inactive p sq k (s\<lparr>active_list := rest\<rparr>) = Inr s1"
    and e: "demote_loop n s1 = Inr s'"
    by (auto split: list.splits sum.splits)
  let ?s0 = "s\<lparr>active_list := rest\<rparr>"
  from Suc.prems(2) have c: "core P s" and co: "cover_ok s" by (simp_all add: inv_def)
  have m: "mset (nodes s) = add_mset (p, sq, k) (mset (nodes ?s0))"
    by (simp add: nodes_def l)
  from core_pop[OF c m] have a: "core (insert (sq, k) P) ?s0" "(sq, k) \<notin> P" "access ?s0 sq k = p"
    by simp_all
  from co have "cover_ok ?s0" by (simp add: cover_ok_def covered_def)
  with a(1) have "inv (insert (sq, k) P) ?s0" by (simp add: inv_def)
  from insert_inactive_inv[OF r this a(2,3)] have "inv P s1" .
  from Suc.IH[OF e this] show ?case .
qed

lemma first_index_Some: "first_index p xs = Some i \<Longrightarrow> i < length xs \<and> fst (xs ! i) = p"
proof (induction xs arbitrary: i)
  case Nil
  then show ?case by simp
next
  case (Cons x xs)
  then show ?case by (auto split: if_splits)
qed

lemma promote_inv:
  assumes pr: "promote p s = Inr s'" and v: "inv P s"
  shows "inv P s'"
proof (cases "first_index p (inactive_list s)")
  case None
  with pr have "s' = s" by (auto simp: promote_def find_index_def split: option.splits)
  with v show ?thesis by simp
next
  case (Some i)
  from first_index_Some[OF Some] have i: "i < length (inactive_list s)" by simp
  define s1 where "s1 = s\<lparr>inactive_list := take i (inactive_list s) @ drop (Suc i) (inactive_list s),
                       active_list := active_list s @ [inactive_list s ! i]\<rparr>"
  have "mset (inactive_list s) =
      add_mset (inactive_list s ! i) (mset (take i (inactive_list s) @ drop (Suc i) (inactive_list s)))"
    using id_take_nth_drop[OF i] by (metis add_mset_add_single mset.simps(2) mset_append union_mset_add_mset_right)
  then have m: "mset (nodes s1) = mset (nodes s)"
    by (simp add: nodes_def s1_def)
  from v have "core P s" "cover_ok s" by (simp_all add: inv_def)
  with core_cong[OF _ _ m, of P] have v1: "inv P s1"
    by (simp add: inv_def s1_def cover_ok_def covered_def)
  from pr Some have "s' = s1 \<or> (\<exists>n. demote_loop n s1 = Inr s')"
    by (auto simp: promote_def find_index_def Let_def s1_def split: if_splits)
  then show ?thesis using v1 demote_loop_inv by blast
qed

lemma reclaim_n_loop_inv: "reclaim_n_loop n cur s = Inr s' \<Longrightarrow> inv {} s \<Longrightarrow> inv {} s'"
proof (induction n arbitrary: cur s)
  case 0
  then show ?case by simp
next
  case (Suc n)
  from Suc.prems(2) have c: "core {} s" and co: "cover_ok s" by (simp_all add: inv_def)
  show ?case
  proof (cases "inactive_list s")
    case (Cons nd rest)
    obtain p sq k where nd: "nd = (p, sq, k)" by (cases nd) auto
    let ?s0 = "s\<lparr>inactive_list := rest\<rparr>"
    from Suc.prems(1) Cons obtain s2 where r: "reclaim (p, sq, k) ?s0 = Inr s2"
      and l: "reclaim_n_loop n (Some nd) s2 = Inr s'"
      by (auto simp: nd split: sum.splits)
    have m: "mset (nodes s) = add_mset (p, sq, k) (mset (nodes ?s0))"
      by (simp add: nodes_def Cons nd)
    from core_pop[OF c m] have "core (insert (sq, k) {}) ?s0" "(sq, k) \<notin> {}" "access ?s0 sq k = p"
      by simp_all
    from reclaim_inv[OF r this] have "inv {} s2" .
    from Suc.IH[OF l this] show ?thesis .
  next
    case Nil
    show ?thesis
    proof (cases "active_list s")
      case (Cons nd rest)
      obtain p sq k where nd: "nd = (p, sq, k)" by (cases nd) auto
      let ?s0 = "s\<lparr>active_list := rest\<rparr>"
      from Suc.prems(1) Nil Cons obtain s2 where r: "reclaim (p, sq, k) ?s0 = Inr s2"
        and l: "reclaim_n_loop n (Some nd) s2 = Inr s'"
        by (auto simp: nd split: sum.splits)
      have m: "mset (nodes s) = add_mset (p, sq, k) (mset (nodes ?s0))"
        by (simp add: nodes_def Cons Nil nd)
      from core_pop[OF c m] have "core (insert (sq, k) {}) ?s0" "(sq, k) \<notin> {}" "access ?s0 sq k = p"
        by simp_all
      from reclaim_inv[OF r this] have "inv {} s2" .
      from Suc.IH[OF l this] show ?thesis .
    next
      case Nil2: Nil
      from Suc.prems(1) Nil Nil2 obtain nd s2 where r: "reclaim nd s = Inr s2"
        and l: "reclaim_n_loop n (Some nd) s2 = Inr s'"
        by (auto split: sum.splits option.splits)
      obtain p sq k where nd: "nd = (p, sq, k)" by (cases nd) auto
      from Nil Nil2 have e: "nodes s = []" by (simp add: nodes_def)
      have "\<not> 0 \<le> access s sq k"
      proof
        assume "0 \<le> access s sq k"
        with c have "(access s sq k, sq, k) \<in> set (nodes s)" by (simp add: core_def)
        with e show False by simp
      qed
      then have "access s sq k < 0" by simp
      from reclaim_miss_inv[OF r[unfolded nd] c _ this] e have "inv {} s2" by simp
      from Suc.IH[OF l this] show ?thesis .
    qed
  qed
qed

lemma reclaim_deficit_inv: "reclaim_deficit n s = Inr s' \<Longrightarrow> inv {} s \<Longrightarrow> inv {} s'"
  by (auto simp: reclaim_deficit_def reclaim_n_pages_def dest: reclaim_n_loop_inv split: if_splits)

lemma mark_range_Inr:
  "mark_range ps v pgs = Inr pgs' \<Longrightarrow>
     length pgs' = length pgs \<and> (\<forall>p\<in>set ps. p < length pgs) \<and>
     (\<forall>i<length pgs. pgs' ! i = (if i \<in> set ps then v else pgs ! i))"
proof (induction ps arbitrary: pgs)
  case Nil
  then show ?case by simp
next
  case (Cons p ps)
  from Cons.prems have p: "p < length pgs" and m: "mark_range ps v (pgs[p := v]) = Inr pgs'"
    by (simp_all split: if_splits)
  from Cons.IH[OF m] p show ?case
    by (auto simp: nth_list_update)
qed

lemma discontiguous_Inr:
  "discontiguous xs i v r = (ys, ids) \<Longrightarrow>
     length ys = length xs \<and> distinct ids \<and>
     (\<forall>j\<in>set ids. i \<le> j \<and> j < i + length xs \<and> xs ! (j - i) = - 1) \<and>
     (\<forall>m<length xs. ys ! m = (if i + m \<in> set ids then v else xs ! m))"
proof (induction xs arbitrary: i r ys ids)
  case Nil
  then show ?case by simp
next
  case (Cons x xs)
  show ?case
  proof (cases "x = - 1")
    case False
    with Cons.prems obtain ys' where d: "discontiguous xs (Suc i) v r = (ys', ids)"
      and ys: "ys = x # ys'"
      by (auto split: prod.splits)
    from Cons.IH[OF d] have ih: "length ys' = length xs" "distinct ids"
      "\<forall>j\<in>set ids. Suc i \<le> j \<and> j < Suc i + length xs \<and> xs ! (j - Suc i) = - 1"
      "\<forall>m<length xs. ys' ! m = (if Suc i + m \<in> set ids then v else xs ! m)"
      by auto
    have a: "\<forall>j\<in>set ids. i \<le> j \<and> j < i + length (x # xs) \<and> (x # xs) ! (j - i) = - 1"
    proof
      fix j assume "j \<in> set ids"
      with ih(3) have j: "Suc i \<le> j" "j < Suc i + length xs" "xs ! (j - Suc i) = - 1" by auto
      then have "j - i = Suc (j - Suc i)" by simp
      with j show "i \<le> j \<and> j < i + length (x # xs) \<and> (x # xs) ! (j - i) = - 1" by simp
    qed
    have b: "\<forall>m<length (x # xs). ys ! m = (if i + m \<in> set ids then v else (x # xs) ! m)"
    proof (intro allI impI)
      fix m assume m: "m < length (x # xs)"
      show "ys ! m = (if i + m \<in> set ids then v else (x # xs) ! m)"
      proof (cases m)
        case 0
        from ih(3) have "i \<notin> set ids" by auto
        with 0 ys show ?thesis by simp
      next
        case (Suc m')
        with m ih(4) ys show ?thesis by simp
      qed
    qed
    from ih(1) ys have L: "length ys = length (x # xs)" by simp
    from L ih(2) a b show ?thesis by blast
  next
    case True
    show ?thesis
    proof (cases "r - 1 = 0")
      case r: True
      with True Cons.prems have e: "ys = v # xs" "ids = [i]" by auto
      have "\<forall>m<length (x # xs). ys ! m = (if i + m \<in> set ids then v else (x # xs) ! m)"
      proof (intro allI impI)
        fix m assume "m < length (x # xs)"
        then show "ys ! m = (if i + m \<in> set ids then v else (x # xs) ! m)"
          using e by (cases m) auto
      qed
      moreover from e have "length ys = length (x # xs)" "distinct ids" by simp_all
      moreover from e True have "\<forall>j\<in>set ids. i \<le> j \<and> j < i + length (x # xs) \<and> (x # xs) ! (j - i) = - 1"
        by simp
      ultimately show ?thesis by blast
    next
      case r: False
      with True Cons.prems obtain ys' ids' where d: "discontiguous xs (Suc i) v (r - 1) = (ys', ids')"
        and ys: "ys = v # ys'" and ids: "ids = i # ids'"
        by (auto split: prod.splits)
      from Cons.IH[OF d] have ih: "length ys' = length xs" "distinct ids'"
        "\<forall>j\<in>set ids'. Suc i \<le> j \<and> j < Suc i + length xs \<and> xs ! (j - Suc i) = - 1"
        "\<forall>m<length xs. ys' ! m = (if Suc i + m \<in> set ids' then v else xs ! m)"
        by auto
      have a: "\<forall>j\<in>set ids. i \<le> j \<and> j < i + length (x # xs) \<and> (x # xs) ! (j - i) = - 1"
      proof
        fix j assume "j \<in> set ids"
        then consider "j = i" | "j \<in> set ids'" using ids by auto
        then show "i \<le> j \<and> j < i + length (x # xs) \<and> (x # xs) ! (j - i) = - 1"
        proof cases
          case 1
          with True show ?thesis by simp
        next
          case 2
          with ih(3) have j: "Suc i \<le> j" "j < Suc i + length xs" "xs ! (j - Suc i) = - 1" by auto
          then have "j - i = Suc (j - Suc i)" by simp
          with j show ?thesis by simp
        qed
      qed
      have b: "\<forall>m<length (x # xs). ys ! m = (if i + m \<in> set ids then v else (x # xs) ! m)"
      proof (intro allI impI)
        fix m assume m: "m < length (x # xs)"
        show "ys ! m = (if i + m \<in> set ids then v else (x # xs) ! m)"
        proof (cases m)
          case 0
          with ys ids show ?thesis by simp
        next
          case (Suc m')
          with m ih(4) ys ids show ?thesis by simp
        qed
      qed
      from ih(3) have "i \<notin> set ids'" by auto
      with ih(2) ids have D: "distinct ids" by simp
      from ih(1) ys have L: "length ys = length (x # xs)" by simp
      from L D a b show ?thesis by blast
    qed
  qed
qed

lemma le_pow_ceil_log2: "n \<le> 2 ^ ceil_log2 n"
proof (induction n rule: ceil_log2.induct)
  case (1 n)
  show ?case
  proof (cases "n < 2")
    case True
    then show ?thesis by (subst ceil_log2.simps) simp
  next
    case False
    from 1[OF False] have "(n + 1) div 2 \<le> 2 ^ ceil_log2 ((n + 1) div 2)" .
    moreover have "n \<le> 2 * ((n + 1) div 2)" by arith
    ultimately have "n \<le> 2 * 2 ^ ceil_log2 ((n + 1) div 2)" by linarith
    with False show ?thesis by (subst ceil_log2.simps) simp
  qed
qed

lemma covered_block:
  "i < length bl \<Longrightarrow> b \<in> set (bl ! i) \<Longrightarrow> set [b..<b + 2 ^ (k + i)] \<subseteq> set (covered_from k bl)"
proof (induction bl arbitrary: i k)
  case Nil
  then show ?case by simp
next
  case (Cons bs bl)
  show ?case
  proof (cases i)
    case 0
    with Cons.prems show ?thesis by auto
  next
    case (Suc i')
    with Cons.prems have "i' < length bl" "b \<in> set (bl ! i')" by simp_all
    from Cons.IH[OF this, of "Suc k"] Suc show ?thesis by auto
  qed
qed

lemma request_pages_Inr:
  assumes r: "request_pages sq n s = Inr (ids, s')" and co: "cover_ok s"
  shows "\<exists>fs. ids = map int fs \<and> distinct fs \<and>
           (\<forall>p\<in>set fs. p < length (pages s) \<and> pages s ! p = - 1) \<and>
           length (pages s') = length (pages s) \<and>
           (\<forall>i<length (pages s). pages s' ! i = (if i \<in> set fs then int sq else pages s ! i))"
    and "allocated_pages s' = allocated_pages s"
    and "inactive_list s' = inactive_list s" and "active_list s' = active_list s"
proof -
  from request_pages_lru[OF r] show "allocated_pages s' = allocated_pages s"
    and "inactive_list s' = inactive_list s" and "active_list s' = active_list s" by simp_all
  from r have n0: "n \<noteq> 0" by (auto simp: request_pages_def split: if_splits)
  define bl where "bl = buddy_lists s"
  show "\<exists>fs. ids = map int fs \<and> distinct fs \<and>
           (\<forall>p\<in>set fs. p < length (pages s) \<and> pages s ! p = - 1) \<and>
           length (pages s') = length (pages s) \<and>
           (\<forall>i<length (pages s). pages s' ! i = (if i \<in> set fs then int sq else pages s ! i))"
  proof (cases "List.find (\<lambda>i. bl ! i \<noteq> []) [ceil_log2 n..<length bl]")
    case (Some i)
    define b where "b = hd (bl ! i)"
    from Some have i: "ceil_log2 n \<le> i" "i < length bl" "bl ! i \<noteq> []"
      by (auto simp: find_Some_iff)
    from r n0 Some obtain pgs s1 where m: "mark_range [b..<b + n] (int sq) (pages s) = Inr pgs"
      and ids: "ids = map int [b..<b + n]"
      and s1: "s1 = s\<lparr>buddy_lists := bl[i := tl (bl ! i)], pages := pgs\<rparr>"
      and u: "update_buddy_lists s1 = Inr s'"
      by (auto simp: request_pages_def Let_def bl_def[symmetric] b_def[symmetric] split: sum.splits)
    from update_buddy_lists_up(2)[OF u] s1 have pg: "pages s' = pgs" by simp
    from i(3) have "b \<in> set (bl ! i)" by (simp add: b_def)
    from covered_block[OF i(2) this, of 0] co
    have blk: "\<forall>p\<in>set [b..<b + 2 ^ i]. p < length (pages s) \<and> pages s ! p = - 1"
      by (auto simp: cover_ok_def covered_def bl_def)
    have "n \<le> 2 ^ ceil_log2 n" by (rule le_pow_ceil_log2)
    also from i(1) have "\<dots> \<le> (2::nat) ^ i" by (simp add: power_increasing)
    finally have "n \<le> 2 ^ i" .
    with blk have free: "\<forall>p\<in>set [b..<b + n]. p < length (pages s) \<and> pages s ! p = - 1" by auto
    from mark_range_Inr[OF m] free ids pg show ?thesis
      by (intro exI[of _ "[b..<b + n]"]) simp
  next
    case None
    from r n0 None obtain pgs fs s1 where d: "discontiguous (pages s) 0 (int sq) (int n) = (pgs, fs)"
      and ids: "ids = map int fs" and s1: "s1 = s\<lparr>pages := pgs\<rparr>"
      and u: "update_buddy_lists s1 = Inr s'"
      by (auto simp: request_pages_def Let_def bl_def[symmetric] split: sum.splits prod.splits)
    from update_buddy_lists_up(2)[OF u] s1 have pg: "pages s' = pgs" by simp
    from discontiguous_Inr[OF d] ids pg show ?thesis
      by (intro exI[of _ fs]) auto
  qed
qed

lemma core_pages_mono:
  assumes c: "core P s" and al: "allocated_pages s' = allocated_pages s"
    and ns: "nodes s' = nodes s" and len: "length (pages s') = length (pages s)"
    and g: "good_pages s'"
    and mono: "\<forall>i<length (pages s). pages s ! i \<noteq> - 1 \<longrightarrow> pages s' ! i \<noteq> - 1"
  shows "core P s'"
proof -
  note a = access_cong[OF al]
  have nk: "node_ok s' nd" if "node_ok s nd" for nd
    using that mono by (auto simp: node_ok_def a len)
  have pk: "pending_ok s' pos" if "pending_ok s pos" for pos
    using that mono by (auto simp: pending_ok_def a len ns)
  from c g nk pk show ?thesis
    unfolding core_def a ns by blast
qed

lemma request_pages_inv:
  assumes r: "request_pages sq n s = Inr (ids, s')" and v: "inv P s"
  shows "inv P s'"
    and "distinct ids"
    and "\<forall>p\<in>set ids. 0 \<le> p \<and> nat p < length (pages s') \<and> pages s' ! nat p \<noteq> - 1 \<and>
           p \<notin> fst ` set (nodes s') \<and> (\<forall>pos\<in>P. access s' (fst pos) (snd pos) \<noteq> p)"
    and "allocated_pages s' = allocated_pages s"
proof -
  from v have c: "core P s" and co: "cover_ok s" by (simp_all add: inv_def)
  from request_pages_Inr[OF r co] obtain fs where ids: "ids = map int fs" and d: "distinct fs"
    and fr: "\<forall>p\<in>set fs. p < length (pages s) \<and> pages s ! p = - 1"
    and len: "length (pages s') = length (pages s)"
    and pg: "\<forall>i<length (pages s). pages s' ! i = (if i \<in> set fs then int sq else pages s ! i)"
    and al: "allocated_pages s' = allocated_pages s"
    and ns: "nodes s' = nodes s"
    by (auto simp: nodes_def)
  note a = access_cong[OF al]
  show "allocated_pages s' = allocated_pages s" by (rule al)
  from request_pages_up[OF r] core_good[OF c] have up: "up_to_date s'" and g: "good_pages s'" by auto
  from pg have mono: "\<forall>i<length (pages s). pages s ! i \<noteq> - 1 \<longrightarrow> pages s' ! i \<noteq> - 1" by auto
  from core_pages_mono[OF c al ns len g mono] up g show "inv P s'"
    by (simp add: inv_def up_to_date_cover)
  from d ids show "distinct ids" by (simp add: distinct_map inj_on_def)
  show "\<forall>p\<in>set ids. 0 \<le> p \<and> nat p < length (pages s') \<and> pages s' ! nat p \<noteq> - 1 \<and>
           p \<notin> fst ` set (nodes s') \<and> (\<forall>pos\<in>P. access s' (fst pos) (snd pos) \<noteq> p)"
  proof
    fix p assume "p \<in> set ids"
    with ids obtain f where f: "f \<in> set fs" "p = int f" by auto
    with fr have fl: "f < length (pages s)" and ff: "pages s ! f = - 1" by auto
    have "p \<notin> fst ` set (nodes s)"
    proof
      assume "p \<in> fst ` set (nodes s)"
      then obtain nd where "nd \<in> set (nodes s)" "fst nd = p" by auto
      with c have "node_ok s nd" by (simp add: core_def)
      with \<open>fst nd = p\<close> f ff show False by (simp add: node_ok_def)
    qed
    moreover have "access s (fst pos) (snd pos) \<noteq> p" if "pos \<in> P" for pos
    proof
      assume e: "access s (fst pos) (snd pos) = p"
      from that c have "pending_ok s pos" by (simp add: core_def)
      with e f ff show False by (simp add: pending_ok_def)
    qed
    ultimately show "0 \<le> p \<and> nat p < length (pages s') \<and> pages s' ! nat p \<noteq> - 1 \<and>
           p \<notin> fst ` set (nodes s') \<and> (\<forall>pos\<in>P. access s' (fst pos) (snd pos) \<noteq> p)"
      using f fl pg by (simp add: len ns a)
  qed
qed

lemma access_nonneg:
  "0 \<le> access s sq k \<Longrightarrow> \<exists>l. allocated_pages s sq = Some l \<and> k < length l \<and> l ! k = access s sq k"
  by (auto simp: access_def split: option.splits if_splits)

lemma access_entry: "allocated_pages s sq = Some l \<Longrightarrow> k < length l \<Longrightarrow> access s sq k = l ! k"
  by (auto simp: access_def)

lemma insert_pages_inv:
  "insert_pages n sq idx s = Inr s' \<Longrightarrow> inv {(sq, j) |j. idx \<le> j \<and> j < idx + n} s \<Longrightarrow> inv {} s'"
proof (induction n arbitrary: idx s)
  case 0
  have "{(sq, j) |j. idx \<le> j \<and> j < idx} = {}" by auto
  with 0 show ?case by simp
next
  case (Suc n)
  let ?P = "{(sq, j) |j. idx \<le> j \<and> j < idx + Suc n}"
  let ?P' = "{(sq, j) |j. Suc idx \<le> j \<and> j < Suc idx + n}"
  have P: "?P = insert (sq, idx) ?P'"
  proof (rule set_eqI)
    fix x :: "nat \<times> nat"
    obtain a b where x: "x = (a, b)" by (cases x)
    have "(idx \<le> b \<and> b < idx + Suc n) \<longleftrightarrow> (b = idx \<or> Suc idx \<le> b \<and> b < Suc idx + n)"
      by arith
    then show "x \<in> ?P \<longleftrightarrow> x \<in> insert (sq, idx) ?P'"
      unfolding x by blast
  qed
  from Suc.prems(2) have "pending_ok s (sq, idx)" by (simp add: inv_def core_def)
  then have "0 \<le> access s sq idx" by (simp add: pending_ok_def)
  from access_nonneg[OF this] obtain l where l: "allocated_pages s sq = Some l" "idx < length l"
    "l ! idx = access s sq idx" by auto
  with Suc.prems(1) obtain s1 where i: "insert_inactive (l ! idx) sq idx s = Inr s1"
    and r: "insert_pages n sq (Suc idx) s1 = Inr s'"
    by (auto split: sum.splits)
  have "(sq, idx) \<notin> ?P'" by simp
  from insert_inactive_inv[OF i Suc.prems(2)[unfolded P] this l(3)[symmetric]] have "inv ?P' s1" .
  from Suc.IH[OF r this] show ?case .
qed

lemma allocate_inv:
  assumes v: "inv {} s" and fresh: "allocated_pages s sq = None"
    and d: "distinct ids"
    and f: "\<forall>p\<in>set ids. 0 \<le> p \<and> nat p < length (pages s) \<and> pages s ! nat p \<noteq> - 1 \<and>
           p \<notin> fst ` set (nodes s)"
  shows "inv {(sq, j) |j. 0 \<le> j \<and> j < 0 + length ids} (allocate ids sq s)"
proof -
  let ?s = "allocate ids sq s"
  let ?P = "{(sq, j) |j. 0 \<le> j \<and> j < 0 + length ids}"
  from v have c: "core {} s" and co: "cover_ok s" by (simp_all add: inv_def)
  have a: "access ?s sq' k' = (if sq' = sq then (if k' < length ids then ids ! k' else - 1)
      else access s sq' k')" for sq' k'
    by (auto simp: access_def allocate_def)
  have an: "access s sq k' = - 1" for k' using fresh by (simp add: access_def)
  have ns: "nodes ?s = nodes s" and pg: "pages ?s = pages s"
    by (simp_all add: nodes_def allocate_def)
  have nk: "node_ok ?s nd" if "nd \<in> set (nodes s)" for nd
  proof -
    from that c have n: "node_ok s nd" by (simp add: core_def)
    then have "fst (snd nd) \<noteq> sq" using an by (auto simp: node_ok_def)
    with n show ?thesis by (simp add: node_ok_def a pg)
  qed
  from c have m0: "- 1 \<le> access s sq' k'" for sq' k' by (simp add: core_def)
  from c have e0: "0 \<le> access s sq' k' \<Longrightarrow> (access s sq' k', sq', k') \<in> set (nodes s)"
    for sq' k' by (simp add: core_def)
  have m1: "- 1 \<le> access ?s sq' k'" for sq' k'
  proof (cases "sq' = sq \<and> k' < length ids")
    case True
    then have "ids ! k' \<in> set ids" by simp
    with f have "0 \<le> ids ! k'" by blast
    with True show ?thesis by (simp add: a)
  next
    case False
    then show ?thesis using m0[of sq' k'] by (simp add: a)
  qed
  have ent: "(sq', k') \<in> ?P \<or> (access ?s sq' k', sq', k') \<in> set (nodes ?s)"
    if "0 \<le> access ?s sq' k'" for sq' k'
  proof (cases "sq' = sq")
    case True
    with that have "k' < length ids" by (simp add: a split: if_splits)
    with True show ?thesis by simp
  next
    case False
    with that e0[of sq' k'] show ?thesis by (simp add: a ns)
  qed
  have pend: "pending_ok ?s pos" if "pos \<in> ?P" for pos
  proof -
    from that obtain j where j: "pos = (sq, j)" "j < length ids" by auto
    then have "ids ! j \<in> set ids" by simp
    with f j show ?thesis by (simp add: pending_ok_def a ns pg)
  qed
  have inj: "inj_on (\<lambda>pos. access ?s (fst pos) (snd pos)) ?P"
  proof (rule inj_onI)
    fix x y assume "x \<in> ?P" "y \<in> ?P" and e: "access ?s (fst x) (snd x) = access ?s (fst y) (snd y)"
    then obtain i j where x: "x = (sq, i)" "i < length ids" and y: "y = (sq, j)" "j < length ids"
      by auto
    with e have "ids ! i = ids ! j" by (simp add: a)
    with d x y show "x = y" by (simp add: nth_eq_iff_index_eq)
  qed
  from c have "good_pages ?s" "distinct (map fst (nodes ?s))"
    by (simp_all add: core_def good_pages_def pg ns)
  note g = this
  have "core ?P ?s"
    unfolding core_def
  proof (intro conjI allI impI ballI)
    show "good_pages ?s" by (rule g(1))
    show "distinct (map fst (nodes ?s))" by (rule g(2))
    show "- 1 \<le> access ?s sq' k'" for sq' k' by (rule m1)
    show "node_ok ?s nd" if "nd \<in> set (nodes ?s)" for nd using that nk by (simp add: ns)
    show "(sq', k') \<in> ?P \<or> (access ?s sq' k', sq', k') \<in> set (nodes ?s)"
      if "0 \<le> access ?s sq' k'" for sq' k' using that by (rule ent)
    show "pending_ok ?s pos" if "pos \<in> ?P" for pos using that by (rule pend)
    show "inj_on (\<lambda>pos. access ?s (fst pos) (snd pos)) ?P" by (rule inj)
  qed
  moreover from co have "cover_ok ?s" by (simp add: cover_ok_def covered_def allocate_def)
  ultimately show ?thesis by (simp add: inv_def)
qed




subsection \<open>Accessing a resident page twice\<close>

lemma promote_miss: "first_index p (inactive_list s) = None \<Longrightarrow> promote p s = Inr s"
  by (simp add: promote_def find_index_def split: option.splits)

lemma first_index_append_last:
  "p \<notin> fst ` set xs \<Longrightarrow> fst nd = p \<Longrightarrow> first_index p (xs @ [nd]) = Some (length xs)"
  by (induction xs) auto

lemma distinct_fst_take_drop:
  assumes d: "distinct (map fst xs)" and i: "i < length xs"
  shows "fst (xs ! i) \<notin> fst ` set (take i xs @ drop (Suc i) xs)"
proof -
  from id_take_nth_drop[OF i] have "map fst xs = map fst (take i xs) @ fst (xs ! i) # map fst (drop (Suc i) xs)"
    by (metis list.simps(9) map_append)
  with d have "distinct (map fst (take i xs) @ fst (xs ! i) # map fst (drop (Suc i) xs))" by simp
  then show ?thesis by auto
qed

lemma mset_take_drop:
  assumes i: "i < length xs"
  shows "mset (take i xs @ drop (Suc i) xs) + {#xs ! i#} = mset xs"
proof -
  from id_take_nth_drop[OF i] have "mset xs = mset (take i xs @ xs ! i # drop (Suc i) xs)" by simp
  then show ?thesis by simp
qed

text \<open>
  \<^verbatim>\<open>promote\<close> of a page id found at index \<open>i\<close> of the inactive list, within capacity: the
  node goes to the tail of the active list, and when the active list was full its head
  goes to the tail of the inactive list, which has room for it.
\<close>

lemma promote_hit_room:
  assumes f: "first_index p (inactive_list s) = Some i" and r: "length (active_list s) < size_active s"
  shows "promote p s =
    Inr (s\<lparr>inactive_list := take i (inactive_list s) @ drop (Suc i) (inactive_list s),
           active_list := active_list s @ [inactive_list s ! i]\<rparr>)"
  using f r by (simp add: promote_def find_index_def Let_def)

lemma promote_hit_full:
  assumes f: "first_index p (inactive_list s) = Some i"
    and r: "length (active_list s) = size_active s"
    and c: "length (inactive_list s) \<le> size_inactive s"
    and a: "active_list s @ [inactive_list s ! i] = a0 # rest"
  shows "promote p s =
    Inr (s\<lparr>inactive_list := (take i (inactive_list s) @ drop (Suc i) (inactive_list s)) @ [a0],
           active_list := rest\<rparr>)"
proof -
  let ?I = "take i (inactive_list s) @ drop (Suc i) (inactive_list s)"
  let ?s1 = "s\<lparr>inactive_list := ?I, active_list := active_list s @ [inactive_list s ! i]\<rparr>"
  from first_index_Some[OF f] have i: "i < length (inactive_list s)" by simp
  then have len: "Suc (length ?I) = length (inactive_list s)" by simp
  from f r have p: "promote p s = demote_loop (Suc 0) ?s1"
    by (simp add: promote_def find_index_def Let_def del: demote_loop.simps)
  obtain q sq k where a0: "a0 = (q, sq, k)" by (cases a0) auto
  let ?s2 = "?s1\<lparr>active_list := rest\<rparr>"
  from len c have "insert_inactive q sq k ?s2 = Inr (?s2\<lparr>inactive_list := ?I @ [(q, sq, k)]\<rparr>)"
    by (simp add: insert_inactive_def Let_def)
  with a have "demote_loop (Suc 0) ?s1 = Inr (?s2\<lparr>inactive_list := ?I @ [(q, sq, k)]\<rparr>)"
    by (simp add: a0)
  with p show ?thesis by (simp add: a0)
qed

lemma promote_twice:
  assumes c: "within_capacity s" and d: "distinct (map fst (inactive_list s @ active_list s))"
  shows "\<exists>s1. promote p s = Inr s1 \<and>
           pages s1 = pages s \<and> buddy_lists s1 = buddy_lists s \<and>
           allocated_pages s1 = allocated_pages s \<and>
           mset (inactive_list s1 @ active_list s1) = mset (inactive_list s @ active_list s) \<and>
           promote p s1 = Inr s1 \<and>
           (0 < size_active s \<longrightarrow> p \<in> fst ` set (inactive_list s @ active_list s) \<longrightarrow>
              p \<in> fst ` set (active_list s1))"
proof (cases "first_index p (inactive_list s)")
  case None
  then have "p \<notin> fst ` set (inactive_list s)" by (simp add: first_index_None)
  then have a: "p \<in> fst ` set (inactive_list s @ active_list s) \<longrightarrow> p \<in> fst ` set (active_list s)"
    by (simp add: image_Un)
  show ?thesis
  proof (intro exI conjI)
    show "promote p s = Inr s" by (rule promote_miss[OF None])
    show "promote p s = Inr s" by (rule promote_miss[OF None])
    show "0 < size_active s \<longrightarrow> p \<in> fst ` set (inactive_list s @ active_list s) \<longrightarrow>
            p \<in> fst ` set (active_list s)" using a by simp
  qed (rule refl)+
next
  case (Some i)
  define I' where "I' = take i (inactive_list s) @ drop (Suc i) (inactive_list s)"
  define nd where "nd = inactive_list s ! i"
  from first_index_Some[OF Some] have i: "i < length (inactive_list s)" and nd: "fst nd = p"
    by (simp_all add: nd_def)
  from d have dI: "distinct (map fst (inactive_list s))" by simp
  from distinct_fst_take_drop[OF dI i] nd have pI: "p \<notin> fst ` set I'" by (simp add: I'_def nd_def)
  from mset_take_drop[OF i] have mI: "mset I' + {#nd#} = mset (inactive_list s)"
    by (simp only: I'_def nd_def)
  from i have lI: "Suc (length I') = length (inactive_list s)" by (simp add: I'_def)
  from c have cA: "length (active_list s) \<le> size_active s"
    and cI: "length (inactive_list s) \<le> size_inactive s"
    by (simp_all add: within_capacity_def)
  have fin: ?thesis
    if p1: "promote p s = Inr s1" and p2: "promote p s1 = Inr s1"
      and l: "mset (inactive_list s1 @ active_list s1) = mset I' + {#nd#} + mset (active_list s)"
      and fr: "pages s1 = pages s" "buddy_lists s1 = buddy_lists s"
        "allocated_pages s1 = allocated_pages s"
      and ac: "0 < size_active s \<longrightarrow> p \<in> fst ` set (active_list s1)" for s1
  proof (intro exI conjI)
    show "promote p s = Inr s1" by (rule p1)
    show "promote p s1 = Inr s1" by (rule p2)
    show "pages s1 = pages s" by (rule fr(1))
    show "buddy_lists s1 = buddy_lists s" by (rule fr(2))
    show "allocated_pages s1 = allocated_pages s" by (rule fr(3))
    show "mset (inactive_list s1 @ active_list s1) = mset (inactive_list s @ active_list s)"
      by (subst l, subst mI, simp)
    show "0 < size_active s \<longrightarrow> p \<in> fst ` set (inactive_list s @ active_list s) \<longrightarrow>
            p \<in> fst ` set (active_list s1)" using ac by simp
  qed
  show ?thesis
  proof (cases "length (active_list s) < size_active s")
    case True
    define s1 where "s1 = s\<lparr>inactive_list := I', active_list := active_list s @ [nd]\<rparr>"
    from promote_hit_room[OF Some True] have p1: "promote p s = Inr s1"
      by (simp only: s1_def I'_def nd_def)
    from pI have "first_index p (inactive_list s1) = None" by (simp add: s1_def first_index_None)
    then have p2: "promote p s1 = Inr s1" by (rule promote_miss)
    have l: "mset (inactive_list s1 @ active_list s1) = mset I' + {#nd#} + mset (active_list s)"
      by (simp add: s1_def)
    have "fst nd \<in> fst ` set (active_list s1)" by (simp add: s1_def)
    then have ac: "0 < size_active s \<longrightarrow> p \<in> fst ` set (active_list s1)" by (simp add: nd)
    show ?thesis by (rule fin[OF p1 p2 l _ _ _ ac]) (simp_all add: s1_def)
  next
    case False
    with cA have full: "length (active_list s) = size_active s" by simp
    show ?thesis
    proof (cases "active_list s")
      case Nil
      define s1 where "s1 = s\<lparr>inactive_list := I' @ [nd], active_list := []\<rparr>"
      from Nil have a: "active_list s @ [inactive_list s ! i] = nd # []" by (simp add: nd_def)
      from promote_hit_full[OF Some full cI a] have p1: "promote p s = Inr s1"
        by (simp only: s1_def I'_def)
      from first_index_append_last[OF pI nd]
      have f1: "first_index p (inactive_list s1) = Some (length I')" by (simp add: s1_def)
      from full Nil have full1: "length (active_list s1) = size_active s1" by (simp add: s1_def)
      from lI cI have c1: "length (inactive_list s1) \<le> size_inactive s1" by (simp add: s1_def)
      have a1: "active_list s1 @ [inactive_list s1 ! length I'] = nd # []" by (simp add: s1_def)
      have e: "s1\<lparr>inactive_list := (take (length I') (inactive_list s1) @
                 drop (Suc (length I')) (inactive_list s1)) @ [nd], active_list := []\<rparr> = s1"
        by (simp add: s1_def)
      from promote_hit_full[OF f1 full1 c1 a1] have p2: "promote p s1 = Inr s1" by (simp only: e)
      have l: "mset (inactive_list s1 @ active_list s1) = mset I' + {#nd#} + mset (active_list s)"
        by (simp add: s1_def Nil)
      from full Nil have ac: "0 < size_active s \<longrightarrow> p \<in> fst ` set (active_list s1)" by simp
      show ?thesis by (rule fin[OF p1 p2 l _ _ _ ac]) (simp_all add: s1_def)
    next
      case (Cons a0 rest)
      define s1 where "s1 = s\<lparr>inactive_list := I' @ [a0], active_list := rest @ [nd]\<rparr>"
      from Cons have a: "active_list s @ [inactive_list s ! i] = a0 # (rest @ [nd])"
        by (simp add: nd_def)
      from promote_hit_full[OF Some full cI a] have p1: "promote p s = Inr s1"
        by (simp only: s1_def I'_def)
      from i have "nd \<in> set (inactive_list s)" by (simp add: nd_def)
      then have n1: "fst nd \<in> fst ` set (inactive_list s)" by (rule imageI)
      from Cons have n2: "fst a0 \<in> fst ` set (active_list s)" by simp
      from d have n3: "fst ` set (inactive_list s) \<inter> fst ` set (active_list s) = {}"
        by simp
      have "fst nd \<noteq> fst a0"
      proof
        assume "fst nd = fst a0"
        with n1 n2 have "fst a0 \<in> fst ` set (inactive_list s) \<inter> fst ` set (active_list s)"
          by simp
        with n3 show False by simp
      qed
      with pI nd have "p \<notin> fst ` set (inactive_list s1)" by (simp add: s1_def)
      then have "first_index p (inactive_list s1) = None" by (simp add: first_index_None)
      then have p2: "promote p s1 = Inr s1" by (rule promote_miss)
      have l: "mset (inactive_list s1 @ active_list s1) = mset I' + {#nd#} + mset (active_list s)"
        by (simp add: s1_def Cons)
      have "fst nd \<in> fst ` set (active_list s1)" by (simp add: s1_def)
      then have ac: "0 < size_active s \<longrightarrow> p \<in> fst ` set (active_list s1)" by (simp add: nd)
      show ?thesis by (rule fin[OF p1 p2 l _ _ _ ac]) (simp_all add: s1_def)
    qed
  qed
qed

text \<open>
  Claim C8, as far as it holds. Take a state within the capacities of both lists whose
  nodes carry pairwise different page ids, and a position \<open>(seqno, num)\<close> whose page is
  resident. The first \<^verbatim>\<open>X\<close> event on it completes and leaves the page slots, the buddy
  lists and the allocation records exactly as they were, and the two lists hold the same
  nodes as before, possibly in another order or in the other list. The second \<^verbatim>\<open>X\<close> event
  on it changes nothing at all. When the active list has room for at least one node and
  the page has a node, the second access finds the page in the active list. The two
  conditions hold, and every resident page has its node, in every state that a fresh
  simulator reaches by a trace whose \<^verbatim>\<open>A\<close> events carry pairwise different sequence
  numbers (lemmas \<open>simulate_inv\<close> and \<open>inv_nodes\<close>). When two nodes carry the same page id, the second access promotes the other node (the
  counterexample below).
\<close>

theorem reaccess_idempotent:
  assumes "within_capacity s" and "distinct (map fst (inactive_list s @ active_list s))"
    and "0 \<le> access s seqno num"
  shows "\<exists>s1. process (Instr ''X'' seqno num) s = Inr s1 \<and>
           pages s1 = pages s \<and> buddy_lists s1 = buddy_lists s \<and>
           allocated_pages s1 = allocated_pages s \<and>
           mset (inactive_list s1 @ active_list s1) = mset (inactive_list s @ active_list s) \<and>
           process (Instr ''X'' seqno num) s1 = Inr s1 \<and>
           (0 < size_active s \<longrightarrow>
            access s seqno num \<in> fst ` set (inactive_list s @ active_list s) \<longrightarrow>
              access s seqno num \<in> fst ` set (active_list s1))"
proof -
  define p where "p = access s seqno num"
  from promote_twice[OF assms(1,2), of p] obtain s1 where h:
    "promote p s = Inr s1 \<and>
     pages s1 = pages s \<and> buddy_lists s1 = buddy_lists s \<and>
     allocated_pages s1 = allocated_pages s \<and>
     mset (inactive_list s1 @ active_list s1) = mset (inactive_list s @ active_list s) \<and>
     promote p s1 = Inr s1 \<and>
     (0 < size_active s \<longrightarrow> p \<in> fst ` set (inactive_list s @ active_list s) \<longrightarrow>
        p \<in> fst ` set (active_list s1))" ..
  from h have p1: "promote p s = Inr s1" and al: "allocated_pages s1 = allocated_pages s"
    and p2: "promote p s1 = Inr s1"
    by simp_all
  from assms(3) p1 have x1: "process (Instr ''X'' seqno num) s = promote p s"
    by (simp add: do_access_def p_def)
  from access_cong[OF al] have "access s1 seqno num = p" by (simp add: p_def)
  with assms(3) have x2: "process (Instr ''X'' seqno num) s1 = promote p s1"
    by (simp add: do_access_def p_def)
  from h have
    "process (Instr ''X'' seqno num) s = Inr s1 \<and>
     pages s1 = pages s \<and> buddy_lists s1 = buddy_lists s \<and>
     allocated_pages s1 = allocated_pages s \<and>
     mset (inactive_list s1 @ active_list s1) = mset (inactive_list s @ active_list s) \<and>
     process (Instr ''X'' seqno num) s1 = Inr s1 \<and>
     (0 < size_active s \<longrightarrow>
      access s seqno num \<in> fst ` set (inactive_list s @ active_list s) \<longrightarrow>
        access s seqno num \<in> fst ` set (active_list s1))"
    unfolding x1 x2 p_def .
  then show ?thesis by (rule exI)
qed

theorem reaccess_idempotent_witness:
  "within_capacity (projr (simulate 8 2 2 [Instr ''A'' 1 2])) \<and>
   distinct (map fst (inactive_list (projr (simulate 8 2 2 [Instr ''A'' 1 2])) @
                      active_list (projr (simulate 8 2 2 [Instr ''A'' 1 2])))) \<and>
   0 \<le> access (projr (simulate 8 2 2 [Instr ''A'' 1 2])) 1 0 \<and>
   (\<exists>s1. process (Instr ''X'' 1 0) (projr (simulate 8 2 2 [Instr ''A'' 1 2])) = Inr s1 \<and>
      pages s1 = pages (projr (simulate 8 2 2 [Instr ''A'' 1 2])) \<and>
      buddy_lists s1 = buddy_lists (projr (simulate 8 2 2 [Instr ''A'' 1 2])) \<and>
      allocated_pages s1 = allocated_pages (projr (simulate 8 2 2 [Instr ''A'' 1 2])) \<and>
      mset (inactive_list s1 @ active_list s1) =
        mset (inactive_list (projr (simulate 8 2 2 [Instr ''A'' 1 2])) @
              active_list (projr (simulate 8 2 2 [Instr ''A'' 1 2]))) \<and>
      process (Instr ''X'' 1 0) s1 = Inr s1 \<and>
      access (projr (simulate 8 2 2 [Instr ''A'' 1 2])) 1 0 \<in> fst ` set (active_list s1))"
proof -
  let ?s = "projr (simulate 8 2 2 [Instr ''A'' 1 2])"
  have h1: "within_capacity ?s" by code_simp
  have h2: "distinct (map fst (inactive_list ?s @ active_list ?s))" by code_simp
  have h3: "0 \<le> access ?s 1 0" by code_simp
  have h4: "0 < size_active ?s" by code_simp
  have h5: "access ?s 1 0 \<in> fst ` set (inactive_list ?s @ active_list ?s)" by code_simp
  from reaccess_idempotent[OF h1 h2 h3] obtain s1 where h:
    "process (Instr ''X'' 1 0) ?s = Inr s1 \<and>
     pages s1 = pages ?s \<and> buddy_lists s1 = buddy_lists ?s \<and>
     allocated_pages s1 = allocated_pages ?s \<and>
     mset (inactive_list s1 @ active_list s1) = mset (inactive_list ?s @ active_list ?s) \<and>
     process (Instr ''X'' 1 0) s1 = Inr s1 \<and>
     (0 < size_active ?s \<longrightarrow>
      access ?s 1 0 \<in> fst ` set (inactive_list ?s @ active_list ?s) \<longrightarrow>
        access ?s 1 0 \<in> fst ` set (active_list s1))" ..
  from h h4 h5 have
    "process (Instr ''X'' 1 0) ?s = Inr s1 \<and>
     pages s1 = pages ?s \<and> buddy_lists s1 = buddy_lists ?s \<and>
     allocated_pages s1 = allocated_pages ?s \<and>
     mset (inactive_list s1 @ active_list s1) = mset (inactive_list ?s @ active_list ?s) \<and>
     process (Instr ''X'' 1 0) s1 = Inr s1 \<and>
     access ?s 1 0 \<in> fst ` set (active_list s1)"
    by simp
  then have "\<exists>s1. process (Instr ''X'' 1 0) ?s = Inr s1 \<and>
     pages s1 = pages ?s \<and> buddy_lists s1 = buddy_lists ?s \<and>
     allocated_pages s1 = allocated_pages ?s \<and>
     mset (inactive_list s1 @ active_list s1) = mset (inactive_list ?s @ active_list ?s) \<and>
     process (Instr ''X'' 1 0) s1 = Inr s1 \<and>
     access ?s 1 0 \<in> fst ` set (active_list s1)" by (rule exI)
  with h1 h2 h3 show ?thesis by (intro conjI)
qed

theorem reaccess_idempotent_counterexample:
  "\<not> isl (simulate 8 2 3 [Instr ''A'' 1 1, Instr ''A'' 1 1, Instr ''A'' 2 1, Instr ''A'' 3 1,
       Instr ''F'' 2 0, Instr ''A'' 4 1, Instr ''X'' 4 0, Instr ''X'' 4 0]) \<and>
   access (projr (simulate 8 2 3 [Instr ''A'' 1 1, Instr ''A'' 1 1, Instr ''A'' 2 1, Instr ''A'' 3 1,
       Instr ''F'' 2 0, Instr ''A'' 4 1])) 4 0 = 1 \<and>
   inactive_list (projr (simulate 8 2 3 [Instr ''A'' 1 1, Instr ''A'' 1 1, Instr ''A'' 2 1,
       Instr ''A'' 3 1, Instr ''F'' 2 0, Instr ''A'' 4 1])) = [(1, 1, 0), (3, 3, 0), (1, 4, 0)] \<and>
   active_list (projr (simulate 8 2 3 [Instr ''A'' 1 1, Instr ''A'' 1 1, Instr ''A'' 2 1,
       Instr ''A'' 3 1, Instr ''F'' 2 0, Instr ''A'' 4 1, Instr ''X'' 4 0])) = [(1, 1, 0)] \<and>
   active_list (projr (simulate 8 2 3 [Instr ''A'' 1 1, Instr ''A'' 1 1, Instr ''A'' 2 1,
       Instr ''A'' 3 1, Instr ''F'' 2 0, Instr ''A'' 4 1, Instr ''X'' 4 0, Instr ''X'' 4 0])) =
     [(1, 1, 0), (1, 4, 0)]"
  by code_simp

lemma frame_eq:
  assumes a: "allocated_pages s' = allocated_pages s"
  shows "frame s s'"
  unfolding frame_def access_cong[OF a] a by simp

lemma frame_trans:
  assumes "frame s s1" and "frame s1 s2"
  shows "frame s s2"
  unfolding frame_def
proof (intro conjI allI)
  from assms show "dom (allocated_pages s2) = dom (allocated_pages s)" by (simp add: frame_def)
  fix sq k
  from assms(1) have a: "access s1 sq k = access s sq k \<or> access s1 sq k = - 1"
    by (simp add: frame_def)
  from assms(2) have b: "access s2 sq k = access s1 sq k \<or> access s2 sq k = - 1"
    by (simp add: frame_def)
  from a b show "access s2 sq k = access s sq k \<or> access s2 sq k = - 1" by auto
qed

lemma frame_neg: "frame s s' \<Longrightarrow> access s sq k < 0 \<Longrightarrow> access s' sq k < 0"
proof -
  assume f: "frame s s'" and n: "access s sq k < 0"
  from f have "access s' sq k = access s sq k \<or> access s' sq k = - 1" by (simp add: frame_def)
  with n show ?thesis by auto
qed

lemma frame_None: "frame s s' \<Longrightarrow> allocated_pages s sq = None \<Longrightarrow> allocated_pages s' sq = None"
proof -
  assume f: "frame s s'" and n: "allocated_pages s sq = None"
  from f have "dom (allocated_pages s') = dom (allocated_pages s)" by (simp add: frame_def)
  moreover from n have "sq \<notin> dom (allocated_pages s)" by (simp add: domIff)
  ultimately have "sq \<notin> dom (allocated_pages s')" by simp
  then show ?thesis by (simp add: domIff)
qed

lemma deallocate_frame:
  assumes d: "deallocate sq k s = Inr (r, s')"
  shows "frame s s'"
proof (cases "0 \<le> access s sq k")
  case True
  from deallocate_hit(2)[OF d True] obtain l where l: "allocated_pages s sq = Some l" "k < length l"
    and a: "allocated_pages s' = (allocated_pages s)(sq \<mapsto> l[k := - 1])"
    by blast
  from l(1) have "dom (allocated_pages s') = dom (allocated_pages s)"
    unfolding a by auto
  moreover have "access s' sq' k' = access s sq' k' \<or> access s' sq' k' = - 1" for sq' k'
    by (simp add: access_update[OF a l])
  ultimately show ?thesis by (simp add: frame_def)
next
  case False
  then have "access s sq k < 0" by simp
  from deallocate_miss(3)[OF d this] show ?thesis by (rule frame_eq)
qed

lemma reclaim_frame:
  assumes "reclaim nd s = Inr s'"
  shows "frame s s'"
proof -
  obtain p sq k where nd: "nd = (p, sq, k)" by (cases nd) auto
  from assms obtain r where d: "deallocate sq k (delete p s) = Inr (r, s')"
    by (auto simp: reclaim_def nd split: sum.splits)
  have "frame s (delete p s)" by (rule frame_eq) (simp add: delete_def)
  from frame_trans[OF this deallocate_frame[OF d]] show ?thesis .
qed

lemma evict_loop_frame: "evict_loop n s = Inr s' \<Longrightarrow> frame s s'"
proof (induction n arbitrary: s)
  case 0
  then show ?case by (simp add: frame_eq)
next
  case (Suc n)
  from Suc.prems obtain nd rest s1 where
    l: "inactive_list s = nd # rest" and r: "reclaim nd (s\<lparr>inactive_list := rest\<rparr>) = Inr s1"
    and e: "evict_loop n s1 = Inr s'"
    by (auto split: list.splits sum.splits)
  have "frame s (s\<lparr>inactive_list := rest\<rparr>)" by (rule frame_eq) simp
  from frame_trans[OF frame_trans[OF this reclaim_frame[OF r]] Suc.IH[OF e]] show ?case .
qed

lemma insert_inactive_frame:
  assumes "insert_inactive p sq k s = Inr s'"
  shows "frame s s'"
proof -
  let ?s1 = "s\<lparr>inactive_list := inactive_list s @ [(p, sq, k)]\<rparr>"
  have f: "frame s ?s1" by (rule frame_eq) simp
  from assms have "s' = ?s1 \<or> (\<exists>n. evict_loop n ?s1 = Inr s')"
    by (auto simp: insert_inactive_def Let_def split: if_splits)
  then show ?thesis
  proof
    assume "s' = ?s1"
    with f show ?thesis by simp
  next
    assume "\<exists>n. evict_loop n ?s1 = Inr s'"
    then obtain n where "evict_loop n ?s1 = Inr s'" ..
    from frame_trans[OF f evict_loop_frame[OF this]] show ?thesis .
  qed
qed

lemma demote_loop_frame: "demote_loop n s = Inr s' \<Longrightarrow> frame s s'"
proof (induction n arbitrary: s)
  case 0
  then show ?case by (simp add: frame_eq)
next
  case (Suc n)
  from Suc.prems obtain p sq k rest s1 where
    l: "active_list s = (p, sq, k) # rest"
    and r: "insert_inactive p sq k (s\<lparr>active_list := rest\<rparr>) = Inr s1"
    and e: "demote_loop n s1 = Inr s'"
    by (auto split: list.splits sum.splits)
  have "frame s (s\<lparr>active_list := rest\<rparr>)" by (rule frame_eq) simp
  from frame_trans[OF frame_trans[OF this insert_inactive_frame[OF r]] Suc.IH[OF e]] show ?case .
qed

lemma promote_frame:
  assumes pr: "promote p s = Inr s'"
  shows "frame s s'"
proof (cases "first_index p (inactive_list s)")
  case None
  with pr have "s' = s" by (auto simp: promote_def find_index_def split: option.splits)
  then show ?thesis by (simp add: frame_eq)
next
  case (Some i)
  define s1 where "s1 = s\<lparr>inactive_list := take i (inactive_list s) @ drop (Suc i) (inactive_list s),
                       active_list := active_list s @ [inactive_list s ! i]\<rparr>"
  have f: "frame s s1" by (rule frame_eq) (simp add: s1_def)
  from pr Some have "s' = s1 \<or> (\<exists>n. demote_loop n s1 = Inr s')"
    by (auto simp: promote_def find_index_def Let_def s1_def split: if_splits)
  then show ?thesis
  proof
    assume "s' = s1"
    with f show ?thesis by simp
  next
    assume "\<exists>n. demote_loop n s1 = Inr s'"
    then obtain n where "demote_loop n s1 = Inr s'" ..
    from frame_trans[OF f demote_loop_frame[OF this]] show ?thesis .
  qed
qed

lemma reclaim_n_loop_frame: "reclaim_n_loop n cur s = Inr s' \<Longrightarrow> frame s s'"
proof (induction n arbitrary: cur s)
  case 0
  then show ?case by (simp add: frame_eq)
next
  case (Suc n)
  have step: "frame s s'"
    if a: "allocated_pages s1 = allocated_pages s" and r: "reclaim nd s1 = Inr s2"
      and l: "reclaim_n_loop n (Some nd) s2 = Inr s'" for s1 s2 nd
    using frame_trans[OF frame_trans[OF frame_eq[OF a] reclaim_frame[OF r]] Suc.IH[OF l]] .
  show ?case
  proof (cases "inactive_list s")
    case (Cons nd rest)
    with Suc.prems obtain s2 where "reclaim nd (s\<lparr>inactive_list := rest\<rparr>) = Inr s2"
      and "reclaim_n_loop n (Some nd) s2 = Inr s'"
      by (simp split: sum.splits)
    from step[OF _ this] show ?thesis by simp
  next
    case Nil
    show ?thesis
    proof (cases "active_list s")
      case (Cons nd rest)
      with Suc.prems Nil obtain s2 where "reclaim nd (s\<lparr>active_list := rest\<rparr>) = Inr s2"
        and "reclaim_n_loop n (Some nd) s2 = Inr s'"
        by (simp split: sum.splits)
      from step[OF _ this] show ?thesis by simp
    next
      case aNil: Nil
      show ?thesis
      proof (cases cur)
        case None
        with Suc.prems Nil aNil show ?thesis by simp
      next
        case (Some nd)
        with Suc.prems Nil aNil obtain s2 where "reclaim nd s = Inr s2"
          and "reclaim_n_loop n (Some nd) s2 = Inr s'"
          by (simp split: sum.splits)
        from step[OF _ this] show ?thesis by simp
      qed
    qed
  qed
qed

lemma reclaim_deficit_frame:
  assumes "reclaim_deficit n s = Inr s'"
  shows "frame s s'"
proof (cases "n \<le> 0")
  case True
  with assms have "s' = s" by (simp add: reclaim_deficit_def)
  then show ?thesis by (simp add: frame_eq)
next
  case False
  with assms have "reclaim_n_loop (nat n) None s = Inr s'"
    by (simp add: reclaim_deficit_def reclaim_n_pages_def)
  then show ?thesis by (rule reclaim_n_loop_frame)
qed

lemma insert_pages_frame: "insert_pages n sq idx s = Inr s' \<Longrightarrow> frame s s'"
proof (induction n arbitrary: idx s)
  case 0
  then show ?case by (simp add: frame_eq)
next
  case (Suc n)
  show ?case
  proof (cases "allocated_pages s sq")
    case None
    with Suc.prems show ?thesis by (simp add: frame_eq)
  next
    case (Some l)
    show ?thesis
    proof (cases "idx < length l")
      case False
      with Suc.prems Some show ?thesis by (simp add: frame_eq)
    next
      case True
      with Suc.prems Some obtain s1 where i: "insert_inactive (l ! idx) sq idx s = Inr s1"
        and r: "insert_pages n sq (Suc idx) s1 = Inr s'"
        by (auto split: sum.splits)
      from frame_trans[OF insert_inactive_frame[OF i] Suc.IH[OF r]] show ?thesis .
    qed
  qed
qed

lemma allocate_idx_inv:
  assumes a: "allocate_idx ids sq k s = Inr s'" and v: "inv {} s" and m: "access s sq k < 0"
    and f: "\<forall>p\<in>set ids. 0 \<le> p \<and> nat p < length (pages s) \<and> pages s ! nat p \<noteq> - 1 \<and>
           p \<notin> fst ` set (nodes s)"
  shows "inv {(sq, k)} s'" and "access s' sq k = last ids"
    and "dom (allocated_pages s') = dom (allocated_pages s)"
proof -
  from v have c: "core {} s" and co: "cover_ok s" by (simp_all add: inv_def)
  from a have ne: "ids \<noteq> []" by (auto simp: allocate_idx_def split: if_splits)
  with a obtain l where l: "allocated_pages s sq = Some l"
    by (cases "allocated_pages s sq") (simp_all add: allocate_idx_def)
  with a ne have kl: "k < length l" by (auto simp: allocate_idx_def split: if_splits)
  with a ne l have s': "s' = s\<lparr>allocated_pages := (allocated_pages s)(sq \<mapsto> l[k := last ids])\<rparr>"
    by (simp add: allocate_idx_def)
  have al: "allocated_pages s' = (allocated_pages s)(sq \<mapsto> l[k := last ids])" by (simp add: s')
  note au = access_update[OF al l kl]
  have ns: "nodes s' = nodes s" and pg: "pages s' = pages s" and bl: "buddy_lists s' = buddy_lists s"
    by (simp_all add: nodes_def s')
  from ne have "last ids \<in> set ids" by simp
  with f have p: "0 \<le> last ids" "nat (last ids) < length (pages s)"
    "pages s ! nat (last ids) \<noteq> - 1" "last ids \<notin> fst ` set (nodes s)"
    by blast+
  show ap: "access s' sq k = last ids" by (simp add: au)
  from l show "dom (allocated_pages s') = dom (allocated_pages s)" unfolding al by auto
  from c have m0: "- 1 \<le> access s sq' k'" for sq' k' by (simp add: core_def)
  from c have e0: "0 \<le> access s sq' k' \<Longrightarrow> (access s sq' k', sq', k') \<in> set (nodes s)"
    for sq' k' by (simp add: core_def)
  from c have n0: "nd \<in> set (nodes s) \<Longrightarrow> node_ok s nd" for nd by (simp add: core_def)
  have "core {(sq, k)} s'"
    unfolding core_def
  proof (intro conjI allI impI ballI)
    from c show "good_pages s'" by (simp add: core_def good_pages_def pg)
    from c show "distinct (map fst (nodes s'))" by (simp add: core_def ns)
    show "- 1 \<le> access s' sq' k'" for sq' k'
      using m0[of sq' k'] p(1) by (simp add: au)
    show "node_ok s' nd" if "nd \<in> set (nodes s')" for nd
    proof -
      from that have n: "node_ok s nd" by (simp add: ns n0)
      then have "access s (fst (snd nd)) (snd (snd nd)) = fst nd" "0 \<le> fst nd"
        by (simp_all add: node_ok_def)
      with m have "\<not> (fst (snd nd) = sq \<and> snd (snd nd) = k)" by auto
      then have "access s' (fst (snd nd)) (snd (snd nd)) = access s (fst (snd nd)) (snd (snd nd))"
        unfolding au by (rule if_not_P)
      with n show ?thesis by (simp add: node_ok_def pg)
    qed
    show "(sq', k') \<in> {(sq, k)} \<or> (access s' sq' k', sq', k') \<in> set (nodes s')"
      if "0 \<le> access s' sq' k'" for sq' k'
    proof (cases "sq' = sq \<and> k' = k")
      case True
      then show ?thesis by simp
    next
      case False
      with that e0[of sq' k'] show ?thesis by (simp add: au ns)
    qed
    show "pending_ok s' pos" if "pos \<in> {(sq, k)}" for pos
      using that p by (simp add: pending_ok_def ap pg ns)
    show "inj_on (\<lambda>pos. access s' (fst pos) (snd pos)) {(sq, k)}" by simp
  qed
  moreover from co have "cover_ok s'" by (simp add: cover_ok_def covered_def pg bl)
  ultimately show "inv {(sq, k)} s'" by (simp add: inv_def)
qed

lemma page_fault_inv:
  assumes pf: "page_fault sq k s = Inr s'" and v: "inv {} s" and m: "access s sq k < 0"
  shows "inv {} s'" and "dom (allocated_pages s') = dom (allocated_pages s)"
proof -
  from pf obtain s1 where rd: "reclaim_deficit (1 - count_free_pages s) s = Inr s1"
    by (cases "reclaim_deficit (1 - count_free_pages s) s") (simp_all add: page_fault_def)
  with pf obtain ids s2 where rq: "request_pages sq 1 s1 = Inr (ids, s2)"
    by (cases "request_pages sq 1 s1") (auto simp: page_fault_def)
  with pf rd obtain s3 where ai: "allocate_idx ids sq k s2 = Inr s3"
    by (cases "allocate_idx ids sq k s2") (simp_all add: page_fault_def)
  with pf rd rq have ii: "insert_inactive (last ids) sq k s3 = Inr s'"
    by (simp add: page_fault_def)
  from reclaim_deficit_inv[OF rd v] have v1: "inv {} s1" .
  from reclaim_deficit_frame[OF rd] have f1: "frame s s1" .
  from frame_neg[OF f1 m] have m1: "access s1 sq k < 0" .
  from request_pages_inv[OF rq v1] have v2: "inv {} s2"
    and f2: "\<forall>p\<in>set ids. 0 \<le> p \<and> nat p < length (pages s2) \<and> pages s2 ! nat p \<noteq> - 1 \<and>
           p \<notin> fst ` set (nodes s2) \<and> (\<forall>pos\<in>{}. access s2 (fst pos) (snd pos) \<noteq> p)"
    and a2: "allocated_pages s2 = allocated_pages s1"
    by simp_all
  from f2 have f2': "\<forall>p\<in>set ids. 0 \<le> p \<and> nat p < length (pages s2) \<and> pages s2 ! nat p \<noteq> - 1 \<and>
           p \<notin> fst ` set (nodes s2)" by simp
  from m1 have m2: "access s2 sq k < 0" by (simp add: access_cong[OF a2])
  from allocate_idx_inv[OF ai v2 m2 f2'] have v3: "inv (insert (sq, k) {}) s3"
    and a3: "access s3 sq k = last ids" and d3: "dom (allocated_pages s3) = dom (allocated_pages s2)"
    by simp_all
  have "(sq, k) \<notin> {}" by simp
  from insert_inactive_inv[OF ii v3 this a3] show "inv {} s'" .
  from insert_inactive_frame[OF ii] have "dom (allocated_pages s') = dom (allocated_pages s3)"
    by (simp add: frame_def)
  also note d3
  also have "dom (allocated_pages s2) = dom (allocated_pages s1)" by (simp add: a2)
  also from f1 have "\<dots> = dom (allocated_pages s)" by (simp add: frame_def)
  finally show "dom (allocated_pages s') = dom (allocated_pages s)" .
qed

lemma update_buddy_lists_delete:
  "update_buddy_lists s = Inr s1 \<Longrightarrow> update_buddy_lists (delete p s) = Inr (delete p s1)"
  by (auto simp: update_buddy_lists_def delete_def split: sum.splits)

lemma deallocate_delete:
  assumes d: "deallocate sq k s = Inr (r, s1)"
  shows "deallocate sq k (delete p s) = Inr (r, delete p s1)"
proof -
  have a: "access (delete p s) sq k = access s sq k"
    by (rule fun_cong[OF fun_cong[OF access_cong]]) (simp add: delete_def)
  show ?thesis
  proof (cases "0 \<le> access s sq k")
    case False
    with d have u: "update_buddy_lists s = Inr s1" and r: "r = access s sq k"
      by (auto simp: deallocate_def Let_def split: sum.splits)
    from update_buddy_lists_delete[OF u] False r show ?thesis
      by (simp add: deallocate_def Let_def a)
  next
    case True
    with d obtain l where l: "allocated_pages s sq = Some l" and kl: "k < length l"
      and np: "nat (access s sq k) < length (pages s)"
      by (auto simp: deallocate_def Let_def split: sum.splits if_splits option.splits)
    let ?t = "s\<lparr>pages := (pages s)[nat (access s sq k) := - 1],
                allocated_pages := (allocated_pages s)(sq \<mapsto> l[k := - 1])\<rparr>"
    from d True l kl np have u: "update_buddy_lists ?t = Inr s1" and r: "r = access s sq k"
      by (auto simp: deallocate_def Let_def split: sum.splits)
    have e: "(delete p s)\<lparr>pages := (pages (delete p s))[nat (access s sq k) := - 1],
                allocated_pages := (allocated_pages (delete p s))(sq \<mapsto> l[k := - 1])\<rparr> = delete p ?t"
      by (simp add: delete_def)
    have l': "allocated_pages (delete p s) sq = Some l" and pg: "pages (delete p s) = pages s"
      using l by (simp_all add: delete_def)
    from update_buddy_lists_delete[OF u, of p] have "update_buddy_lists (delete p ?t) = Inr (delete p s1)" .
    then have "update_buddy_lists ((delete p s)\<lparr>pages := (pages (delete p s))[nat (access s sq k) := - 1],
                allocated_pages := (allocated_pages (delete p s))(sq \<mapsto> l[k := - 1])\<rparr>) = Inr (delete p s1)"
      by (simp only: e)
    with True l' kl np r show ?thesis
      by (simp add: deallocate_def Let_def a pg)
  qed
qed

lemma reclaim_node_inv:
  assumes r: "reclaim (p, sq, k) s = Inr s'" and v: "inv {} s" and n: "(p, sq, k) \<in> set (nodes s)"
  shows "inv {} s'"
proof -
  from v have c: "core {} s" by (simp add: inv_def)
  then have d: "distinct (map fst (nodes s))" by (simp add: core_def)
  then have dI: "distinct (map fst (inactive_list s))" and dA: "distinct (map fst (active_list s))"
    by (simp_all add: nodes_def)
  let ?s0 = "delete p s"
  have fI: "delete_loop 0 p (inactive_list s) = filter (\<lambda>n. fst n \<noteq> p) (inactive_list s)"
    by (rule delete_loop_filter[OF dI]) simp
  have fA: "delete_loop 0 p (active_list s) = filter (\<lambda>n. fst n \<noteq> p) (active_list s)"
    by (rule delete_loop_filter[OF dA]) simp
  have n0: "nodes ?s0 = filter (\<lambda>n. fst n \<noteq> p) (nodes s)"
    by (simp add: nodes_def delete_def fI fA)
  from filter_remove1_fst[OF d n] have rm: "nodes ?s0 = remove1 (p, sq, k) (nodes s)"
    and ab: "p \<notin> fst ` set (nodes ?s0)"
    by (simp_all add: n0)
  from n have m: "mset (nodes s) = add_mset (p, sq, k) (mset (nodes ?s0))"
    by (simp add: rm)
  have pg: "pages ?s0 = pages s" and al: "allocated_pages ?s0 = allocated_pages s"
    by (simp_all add: delete_def)
  from core_pop[OF c m pg al] have c0: "core (insert (sq, k) {}) ?s0" and nP: "(sq, k) \<notin> {}"
    and ap: "access ?s0 sq k = p"
    by simp_all
  from ab have "delete p ?s0 = ?s0" by (rule delete_absent)
  with r have "reclaim (p, sq, k) ?s0 = Inr s'" by (simp add: reclaim_def)
  from reclaim_inv[OF this c0 nP ap] show ?thesis .
qed

lemma do_free_reclaim:
  assumes f: "do_free sq k s = Inr s'"
  shows "reclaim (access s sq k, sq, k) s = Inr s'"
proof -
  from f obtain r s1 where d: "deallocate sq k s = Inr (r, s1)" and s': "s' = delete r s1"
    by (auto simp: do_free_def split: sum.splits)
  have "r = access s sq k"
  proof (cases "0 \<le> access s sq k")
    case True
    from deallocate_hit(1)[OF d True] show ?thesis .
  next
    case False
    then have "access s sq k < 0" by simp
    from deallocate_miss(1)[OF d this] show ?thesis .
  qed
  with deallocate_delete[OF d, of r] s' show ?thesis by (simp add: reclaim_def)
qed

lemma do_free_inv:
  assumes f: "do_free sq k s = Inr s'" and v: "inv {} s"
  shows "inv {} s'" and "frame s s'"
proof -
  note r = do_free_reclaim[OF f]
  from reclaim_frame[OF r] show "frame s s'" .
  from v have c: "core {} s" by (simp add: inv_def)
  show "inv {} s'"
  proof (cases "0 \<le> access s sq k")
    case True
    with c have "(access s sq k, sq, k) \<in> set (nodes s)" by (simp add: core_def)
    from reclaim_node_inv[OF r v this] show ?thesis .
  next
    case False
    then have h: "access s sq k < 0" by simp
    have "access s sq k \<notin> fst ` set (nodes s)"
    proof
      assume "access s sq k \<in> fst ` set (nodes s)"
      then obtain nd where nd: "nd \<in> set (nodes s)" and e: "fst nd = access s sq k" by auto
      from c nd have "node_ok s nd" by (simp add: core_def)
      then have "0 \<le> fst nd" by (simp add: node_ok_def)
      with e h show False by simp
    qed
    from reclaim_miss_inv[OF r c this h] show ?thesis .
  qed
qed

lemma do_allocate_inv:
  assumes da: "do_allocate sq n s = Inr s'" and v: "inv {} s"
    and fresh: "allocated_pages s sq = None"
  shows "inv {} s'" and "dom (allocated_pages s') = insert sq (dom (allocated_pages s))"
proof -
  from da obtain s1 where rd: "reclaim_deficit (int n - count_free_pages s) s = Inr s1"
    by (cases "reclaim_deficit (int n - count_free_pages s) s") (simp_all add: do_allocate_def)
  with da obtain ids s2 where rq: "request_pages sq n s1 = Inr (ids, s2)"
    by (cases "request_pages sq n s1") (auto simp: do_allocate_def)
  with da rd have ip: "insert_pages (length ids) sq 0 (allocate ids sq s2) = Inr s'"
    by (simp add: do_allocate_def)
  from reclaim_deficit_inv[OF rd v] have v1: "inv {} s1" .
  from reclaim_deficit_frame[OF rd] have f1: "frame s s1" .
  from frame_None[OF f1 fresh] have n1: "allocated_pages s1 sq = None" .
  from request_pages_inv[OF rq v1] have v2: "inv {} s2" and d: "distinct ids"
    and f2: "\<forall>p\<in>set ids. 0 \<le> p \<and> nat p < length (pages s2) \<and> pages s2 ! nat p \<noteq> - 1 \<and>
           p \<notin> fst ` set (nodes s2) \<and> (\<forall>pos\<in>{}. access s2 (fst pos) (snd pos) \<noteq> p)"
    and a2: "allocated_pages s2 = allocated_pages s1"
    by simp_all
  from f2 have f2': "\<forall>p\<in>set ids. 0 \<le> p \<and> nat p < length (pages s2) \<and> pages s2 ! nat p \<noteq> - 1 \<and>
           p \<notin> fst ` set (nodes s2)" by simp
  from n1 a2 have n2: "allocated_pages s2 sq = None" by simp
  from allocate_inv[OF v2 n2 d f2']
  have v3: "inv {(sq, j) |j. 0 \<le> j \<and> j < 0 + length ids} (allocate ids sq s2)" .
  from insert_pages_inv[OF ip v3] show "inv {} s'" .
  from insert_pages_frame[OF ip]
  have "dom (allocated_pages s') = dom (allocated_pages (allocate ids sq s2))"
    by (simp add: frame_def)
  also have "\<dots> = insert sq (dom (allocated_pages s1))" by (simp add: allocate_def a2)
  also from f1 have "dom (allocated_pages s1) = dom (allocated_pages s)" by (simp add: frame_def)
  finally show "dom (allocated_pages s') = insert sq (dom (allocated_pages s))" .
qed

lemma covered_from_single:
  "i < n \<Longrightarrow> covered_from k ((replicate n [])[i := [b]]) = [b..<b + 2 ^ (k + i)]"
proof (induction n arbitrary: k i)
  case 0
  then show ?case by simp
next
  case (Suc n)
  show ?case
  proof (cases i)
    case 0
    then show ?thesis by (simp add: covered_from_replicate)
  next
    case (Suc j)
    with Suc.prems have "j < n" by simp
    from Suc.IH[OF this, of "Suc k"] Suc show ?thesis by simp
  qed
qed

lemma pow_floor_log2: "0 < n \<Longrightarrow> 2 ^ floor_log2 n \<le> n"
proof (induction n rule: floor_log2.induct)
  case (1 n)
  show ?case
  proof (cases "n < 2")
    case True
    with 1(2) show ?thesis by (subst floor_log2.simps) simp
  next
    case False
    then have "0 < n div 2" by simp
    with 1(1) False have "2 ^ floor_log2 (n div 2) \<le> n div 2" by simp
    then have "2 * 2 ^ floor_log2 (n div 2) \<le> n" by simp
    with False show ?thesis by (subst floor_log2.simps) simp
  qed
qed

lemma init_inv:
  assumes i: "init M sa si = Inr s"
  shows "inv {} s"
proof -
  from init_Inr[OF i] have M: "M \<noteq> 0" and pg: "pages s = replicate M (- 1)"
    and al: "allocated_pages s = Map.empty" and ls: "active_list s = []" "inactive_list s = []"
    and bl: "buddy_lists s = (replicate (floor_log2 M + 1) [])[floor_log2 M := [0]]"
    by simp_all
  have a: "access s sq k = - 1" for sq k by (simp add: access_def al)
  have n: "nodes s = []" by (simp add: nodes_def ls)
  have "core {} s"
    by (simp add: core_def good_pages_def pg a n)
  moreover have "cover_ok s"
  proof -
    have "covered s = [0..<0 + 2 ^ (0 + floor_log2 M)]"
      unfolding covered_def bl by (rule covered_from_single) simp
    moreover from M have "2 ^ floor_log2 M \<le> M" by (simp add: pow_floor_log2)
    ultimately show ?thesis by (auto simp: cover_ok_def pg)
  qed
  ultimately show ?thesis by (simp add: inv_def)
qed

lemma process_inv:
  assumes p: "process (Instr a sq n) s = Inr s'" and v: "inv {} s"
    and fr: "a = ''A'' \<Longrightarrow> allocated_pages s sq = None"
  shows "inv {} s'"
    and "dom (allocated_pages s') =
           (if a = ''A'' then insert sq (dom (allocated_pages s)) else dom (allocated_pages s))"
proof -
  have "inv {} s' \<and> dom (allocated_pages s') =
           (if a = ''A'' then insert sq (dom (allocated_pages s)) else dom (allocated_pages s))"
  proof (rule process_cases[OF p])
    assume a: "a = ''A''" and d: "do_allocate sq n s = Inr s'"
    from do_allocate_inv[OF d v fr[OF a]] a show ?thesis by simp
  next
    assume a: "a = ''X''" and h: "0 \<le> access s sq n" and pr: "promote (access s sq n) s = Inr s'"
    from promote_inv[OF pr v] promote_frame[OF pr] a show ?thesis by (simp add: frame_def)
  next
    assume a: "a = ''X''" and h: "access s sq n < 0" and pf: "page_fault sq n s = Inr s'"
    from page_fault_inv[OF pf v h] a show ?thesis by simp
  next
    assume a: "a = ''F''" and f: "do_free sq n s = Inr s'"
    from do_free_inv[OF f v] a show ?thesis by (simp add: frame_def)
  next
    assume "a \<noteq> ''A''" and "s' = s"
    with v show ?thesis by simp
  qed
  then show "inv {} s'"
    and "dom (allocated_pages s') =
           (if a = ''A'' then insert sq (dom (allocated_pages s)) else dom (allocated_pages s))"
    by simp_all
qed

lemma run_inv:
  "run instrs s = Inr s' \<Longrightarrow> inv {} s \<Longrightarrow> distinct (allocations instrs) \<Longrightarrow>
     set (allocations instrs) \<inter> dom (allocated_pages s) = {} \<Longrightarrow> inv {} s'"
proof (induction instrs arbitrary: s)
  case Nil
  then show ?case by simp
next
  case (Cons i instrs)
  obtain a sq n where i: "i = Instr a sq n" by (cases i) auto
  from Cons.prems(1) obtain s1 where p: "process (Instr a sq n) s = Inr s1"
    and r: "run instrs s1 = Inr s'"
    by (auto simp: i split: sum.splits)
  have fr: "allocated_pages s sq = None" if "a = ''A''"
  proof -
    from that Cons.prems(4) have "sq \<notin> dom (allocated_pages s)" by (auto simp: i)
    then show ?thesis by (simp add: domIff)
  qed
  from process_inv[OF p Cons.prems(2) fr] have v1: "inv {} s1"
    and d1: "dom (allocated_pages s1) =
           (if a = ''A'' then insert sq (dom (allocated_pages s)) else dom (allocated_pages s))"
    by simp_all
  from Cons.prems(3) have di: "distinct (allocations instrs)" by (simp add: i split: if_splits)
  have "set (allocations instrs) \<inter> dom (allocated_pages s1) = {}"
  proof (cases "a = ''A''")
    case True
    with Cons.prems(3) have "sq \<notin> set (allocations instrs)" by (simp add: i)
    moreover from True Cons.prems(4) have "set (allocations instrs) \<inter> dom (allocated_pages s) = {}"
      by (auto simp: i)
    ultimately show ?thesis using True by (simp add: d1)
  next
    case False
    with Cons.prems(4) show ?thesis by (simp add: d1 i)
  qed
  from Cons.IH[OF r v1 di this] show ?case .
qed

lemma count_distinct_fst:
  "distinct (map f xs) \<Longrightarrow> x \<in> set xs \<Longrightarrow> length (filter (\<lambda>y. f y = f x) xs) = 1"
proof (induction xs)
  case Nil
  then show ?case by simp
next
  case (Cons y xs)
  show ?case
  proof (cases "f y = f x")
    case True
    with Cons.prems(1) have "\<forall>z\<in>set xs. f z \<noteq> f x" by (auto simp: image_iff)
    then have "filter (\<lambda>y. f y = f x) xs = []" by (simp add: filter_empty_conv)
    with True show ?thesis by simp
  next
    case False
    with Cons.prems(2) have "x \<in> set xs" by auto
    with Cons.IH Cons.prems(1) False show ?thesis by simp
  qed
qed

lemma inv_residency:
  assumes v: "inv {} s"
  shows "residency s sq k"
proof (cases "allocated_pages s sq")
  case None
  then show ?thesis by (simp add: residency_def)
next
  case (Some l)
  from v have c: "core {} s" by (simp add: inv_def)
  show ?thesis
  proof (cases "k < length l")
    case False
    with Some show ?thesis by (simp add: residency_def)
  next
    case True
    from access_entry[OF Some True] have a: "access s sq k = l ! k" .
    from c have m: "- 1 \<le> access s sq k" by (simp add: core_def)
    from c have nk: "nd \<in> set (nodes s) \<Longrightarrow> node_ok s nd" for nd by (simp add: core_def)
    show ?thesis
    proof (cases "l ! k = - 1")
      case False
      with m a have "0 \<le> access s sq k" by simp
      moreover from c have "0 \<le> access s sq k \<longrightarrow> (access s sq k, sq, k) \<in> set (nodes s)"
        by (simp add: core_def)
      ultimately have "(access s sq k, sq, k) \<in> set (nodes s)" by (rule rev_mp)
      then have n: "(l ! k, sq, k) \<in> set (nodes s)" by (simp only: a)
      from c have "distinct (map fst (nodes s))" by (simp add: core_def)
      from count_distinct_fst[OF this n]
      have "length (filter (\<lambda>nd. fst nd = l ! k) (nodes s)) = 1" by simp
      then have "length (filter (\<lambda>nd. fst nd = l ! k) (inactive_list s)) +
                 length (filter (\<lambda>nd. fst nd = l ! k) (active_list s)) = 1"
        by (simp add: nodes_def)
      with Some True False show ?thesis by (simp add: residency_def)
    next
      case s: True
      have "fst nd \<noteq> - 1 \<and> snd nd \<noteq> (sq, k)" if "nd \<in> set (inactive_list s @ active_list s)" for nd
      proof -
        from that have "node_ok s nd" by (simp add: nk nodes_def)
        then have p: "0 \<le> fst nd" and e: "access s (fst (snd nd)) (snd (snd nd)) = fst nd"
          by (simp_all add: node_ok_def)
        have "snd nd \<noteq> (sq, k)"
        proof
          assume "snd nd = (sq, k)"
          with e have "access s sq k = fst nd" by simp
          with p a s show False by simp
        qed
        with p show ?thesis by auto
      qed
      with Some True s show ?thesis by (simp add: residency_def)
    qed
  qed
qed

text \<open>
  Claim C2 (residency invariant), for the traces whose \<^verbatim>\<open>A\<close> events carry pairwise
  different sequence numbers. After any such trace that a fresh simulator processes to
  the end, every page id other than \<open>-1\<close> in an allocation record is the page id of
  exactly one node of the inactive and the active list taken together, and for every
  entry \<open>-1\<close> no node stands for its position and no node carries \<open>-1\<close>. Every prefix of
  such a trace is such a trace, so this is the state after each event. When a sequence
  number is allocated twice the invariant fails (the counterexample below).
\<close>

theorem residency_invariant:
  assumes "simulate MAX_PAGENO sa si instrs = Inr s" and "distinct (allocations instrs)"
  shows "residency s seqno num"
proof -
  from assms(1) obtain s0 where i: "init MAX_PAGENO sa si = Inr s0" and r: "run instrs s0 = Inr s"
    by (auto simp: simulate_def split: sum.splits)
  from init_Inr[OF i] have "set (allocations instrs) \<inter> dom (allocated_pages s0) = {}" by simp
  from run_inv[OF r init_inv[OF i] assms(2) this] show ?thesis by (rule inv_residency)
qed

theorem residency_invariant_witness:
  "\<not> isl (simulate 8 2 2 [Instr ''A'' 1 4, Instr ''X'' 1 3, Instr ''A'' 2 4, Instr ''F'' 2 3,
       Instr ''X'' 1 0]) \<and>
   distinct (allocations [Instr ''A'' 1 4, Instr ''X'' 1 3, Instr ''A'' 2 4, Instr ''F'' 2 3,
       Instr ''X'' 1 0]) \<and>
   residency (projr (simulate 8 2 2 [Instr ''A'' 1 4, Instr ''X'' 1 3, Instr ''A'' 2 4,
       Instr ''F'' 2 3, Instr ''X'' 1 0])) 1 0 \<and>
   residency (projr (simulate 8 2 2 [Instr ''A'' 1 4, Instr ''X'' 1 3, Instr ''A'' 2 4,
       Instr ''F'' 2 3, Instr ''X'' 1 0])) 2 3"
proof -
  have h: "\<not> isl (simulate 8 2 2 [Instr ''A'' 1 4, Instr ''X'' 1 3, Instr ''A'' 2 4,
       Instr ''F'' 2 3, Instr ''X'' 1 0])"
    by code_simp
  have d: "distinct (allocations [Instr ''A'' 1 4, Instr ''X'' 1 3, Instr ''A'' 2 4,
       Instr ''F'' 2 3, Instr ''X'' 1 0])"
    by code_simp
  from residency_invariant[OF Inr_projr[OF h] d, of 1 0]
    residency_invariant[OF Inr_projr[OF h] d, of 2 3] h d
  show ?thesis by (intro conjI)
qed

theorem residency_invariant_counterexample:
  "\<not> isl (simulate 8 2 1 [Instr ''A'' 1 1, Instr ''A'' 1 1, Instr ''A'' 2 1]) \<and>
   allocated_pages (projr (simulate 8 2 1 [Instr ''A'' 1 1, Instr ''A'' 1 1, Instr ''A'' 2 1])) 2
     = Some [1] \<and>
   inactive_list (projr (simulate 8 2 1 [Instr ''A'' 1 1, Instr ''A'' 1 1, Instr ''A'' 2 1])) = [] \<and>
   active_list (projr (simulate 8 2 1 [Instr ''A'' 1 1, Instr ''A'' 1 1, Instr ''A'' 2 1])) = [] \<and>
   \<not> residency (projr (simulate 8 2 1 [Instr ''A'' 1 1, Instr ''A'' 1 1, Instr ''A'' 2 1])) 2 0 \<and>
   \<not> isl (simulate 8 2 2 [Instr ''A'' 1 4, Instr ''A'' 1 4]) \<and>
   allocated_pages (projr (simulate 8 2 2 [Instr ''A'' 1 4, Instr ''A'' 1 4])) 1
     = Some [- 1, - 1, - 1, - 1] \<and>
   inactive_list (projr (simulate 8 2 2 [Instr ''A'' 1 4, Instr ''A'' 1 4])) =
     [(- 1, 1, 2), (- 1, 1, 3)] \<and>
   \<not> residency (projr (simulate 8 2 2 [Instr ''A'' 1 4, Instr ''A'' 1 4])) 1 2"
  by code_simp

subsection \<open>States reached by traces that allocate every sequence number at most once\<close>

lemma simulate_inv:
  assumes "simulate M sa si instrs = Inr s" and "distinct (allocations instrs)"
  shows "inv {} s" and "within_capacity s"
proof -
  from assms(1) obtain s0 where i: "init M sa si = Inr s0" and r: "run instrs s0 = Inr s"
    by (auto simp: simulate_def split: sum.splits)
  from init_Inr[OF i] have "set (allocations instrs) \<inter> dom (allocated_pages s0) = {}" by simp
  from run_inv[OF r init_inv[OF i] assms(2) this] show "inv {} s" .
  from init_Inr[OF i] have "within_capacity s0" by (simp add: within_capacity_def)
  from run_capacity[OF r this] show "within_capacity s" by simp
qed

lemma inv_nodes:
  assumes v: "inv {} s"
  shows "distinct (map fst (inactive_list s @ active_list s))"
    and "- 1 \<notin> fst ` set (inactive_list s @ active_list s)"
    and "0 \<le> access s sq k \<Longrightarrow> access s sq k \<in> fst ` set (inactive_list s @ active_list s)"
proof -
  from v have c: "core {} s" by (simp add: inv_def)
  then show "distinct (map fst (inactive_list s @ active_list s))"
    by (simp add: core_def nodes_def)
  show "- 1 \<notin> fst ` set (inactive_list s @ active_list s)"
  proof
    assume "- 1 \<in> fst ` set (inactive_list s @ active_list s)"
    then have "- 1 \<in> fst ` set (nodes s)" by (simp only: nodes_def)
    then obtain nd where nd: "nd \<in> set (nodes s)" and e: "fst nd = - 1"
      by (metis imageE)
    from c nd have "node_ok s nd" by (simp add: core_def)
    with e show False by (simp add: node_ok_def)
  qed
  assume "0 \<le> access s sq k"
  moreover from c have "0 \<le> access s sq k \<longrightarrow> (access s sq k, sq, k) \<in> set (nodes s)"
    by (simp add: core_def)
  ultimately have "(access s sq k, sq, k) \<in> set (nodes s)" by (rule rev_mp)
  then have "fst (access s sq k, sq, k) \<in> fst ` set (nodes s)" by (rule imageI)
  then show "access s sq k \<in> fst ` set (inactive_list s @ active_list s)"
    by (simp add: nodes_def)
qed

lemma simulate_up_to_date:
  assumes "simulate M sa si (instrs @ [Instr a seqno num]) = Inr s"
    and "a = ''A'' \<or> a = ''X'' \<or> a = ''F''"
  shows "up_to_date s"
proof -
  from assms(1) obtain s0 s1 where i: "init M sa si = Inr s0"
    and r: "run instrs s0 = Inr s1" and p: "process (Instr a seqno num) s1 = Inr s"
    by (auto simp: simulate_def run_append split: sum.splits)
  from init_Inr[OF i] have g0: "good_pages s0" and e0: "allocated_pages s0 = Map.empty"
    by (simp_all add: good_pages_def)
  from run_up[OF r g0] e0 have "good_pages s1" "up_to_date s1 \<or> allocated_pages s1 = Map.empty"
    by simp_all
  from process_up(3)[OF p this assms(2)] show ?thesis .
qed

text \<open>
  Claim C10, as far as it holds. When no node of the inactive or the active list carries
  \<open>page_id\<close>, \<^verbatim>\<open>promote(page_id)\<close> returns without raising and leaves the whole state,
  both lists and the buddy system, as it was. For \<open>page_id = -1\<close> this is the case in every
  state that a fresh simulator reaches by a trace whose \<^verbatim>\<open>A\<close> events carry pairwise
  different sequence numbers: there no node carries \<open>-1\<close>. It is not the case in every
  reachable state: when a sequence number is allocated a second time, the evictions of
  its old nodes write \<open>-1\<close> into the record that the \<^verbatim>\<open>A\<close> branch is enumerating, nodes
  with page id \<open>-1\<close> enter the inactive list, and \<^verbatim>\<open>promote(-1)\<close> then moves the first of
  them to the active list (the counterexample below).
\<close>

theorem promote_absent_unchanged:
  "(page_id \<notin> fst ` set (inactive_list s @ active_list s) \<longrightarrow> promote page_id s = Inr s) \<and>
   (simulate MAX_PAGENO sa si instrs = Inr t \<longrightarrow> distinct (allocations instrs) \<longrightarrow>
      - 1 \<notin> fst ` set (inactive_list t @ active_list t) \<and> promote (- 1) t = Inr t)"
proof -
  have a: "promote p u = Inr u" if "p \<notin> fst ` set (inactive_list u @ active_list u)" for p u
  proof -
    from that have "first_index p (inactive_list u) = None"
      and "first_index p (active_list u) = None"
      by (simp_all add: first_index_None image_Un)
    then show ?thesis by (simp add: promote_def find_index_def)
  qed
  have b: "- 1 \<notin> fst ` set (inactive_list t @ active_list t)"
    if "simulate MAX_PAGENO sa si instrs = Inr t" and "distinct (allocations instrs)"
    using inv_nodes(2)[OF simulate_inv(1)[OF that]] .
  show ?thesis
  proof (intro conjI impI)
    assume "page_id \<notin> fst ` set (inactive_list s @ active_list s)"
    then show "promote page_id s = Inr s" by (rule a)
  next
    assume h: "simulate MAX_PAGENO sa si instrs = Inr t" "distinct (allocations instrs)"
    from b[OF h] show "- 1 \<notin> fst ` set (inactive_list t @ active_list t)" .
    from a[OF b[OF h]] show "promote (- 1) t = Inr t" .
  qed
qed

theorem promote_absent_unchanged_witness:
  "7 \<notin> fst ` set (inactive_list (projr (simulate 8 2 2 [Instr ''A'' 1 4])) @
                   active_list (projr (simulate 8 2 2 [Instr ''A'' 1 4]))) \<and>
   promote 7 (projr (simulate 8 2 2 [Instr ''A'' 1 4])) = Inr (projr (simulate 8 2 2 [Instr ''A'' 1 4])) \<and>
   \<not> isl (simulate 8 2 2 [Instr ''A'' 1 4, Instr ''X'' 1 3, Instr ''A'' 2 4, Instr ''F'' 2 3]) \<and>
   distinct (allocations [Instr ''A'' 1 4, Instr ''X'' 1 3, Instr ''A'' 2 4, Instr ''F'' 2 3]) \<and>
   - 1 \<notin> fst ` set
      (inactive_list (projr (simulate 8 2 2
          [Instr ''A'' 1 4, Instr ''X'' 1 3, Instr ''A'' 2 4, Instr ''F'' 2 3])) @
       active_list (projr (simulate 8 2 2
          [Instr ''A'' 1 4, Instr ''X'' 1 3, Instr ''A'' 2 4, Instr ''F'' 2 3]))) \<and>
   promote (- 1) (projr (simulate 8 2 2
       [Instr ''A'' 1 4, Instr ''X'' 1 3, Instr ''A'' 2 4, Instr ''F'' 2 3])) =
     Inr (projr (simulate 8 2 2 [Instr ''A'' 1 4, Instr ''X'' 1 3, Instr ''A'' 2 4, Instr ''F'' 2 3]))"
proof -
  let ?s = "projr (simulate 8 2 2 [Instr ''A'' 1 4])"
  let ?tr = "[Instr ''A'' 1 4, Instr ''X'' 1 3, Instr ''A'' 2 4, Instr ''F'' 2 3]"
  let ?t = "projr (simulate 8 2 2 ?tr)"
  have h1: "7 \<notin> fst ` set (inactive_list ?s @ active_list ?s)" by code_simp
  have h2: "\<not> isl (simulate 8 2 2 ?tr)" by code_simp
  have h3: "distinct (allocations ?tr)" by code_simp
  note t = promote_absent_unchanged[where page_id = 7 and s = ?s and MAX_PAGENO = 8 and sa = 2
      and si = 2 and instrs = ?tr and t = ?t]
  from t h1 have c1: "promote 7 ?s = Inr ?s" by simp
  from t Inr_projr[OF h2] h3
  have c2: "- 1 \<notin> fst ` set (inactive_list ?t @ active_list ?t) \<and> promote (- 1) ?t = Inr ?t"
    by simp
  from h1 c1 h2 h3 c2 show ?thesis by (intro conjI) simp_all
qed

theorem promote_absent_unchanged_counterexample:
  "\<not> isl (simulate 8 2 2 [Instr ''A'' 1 4, Instr ''A'' 1 4]) \<and>
   inactive_list (projr (simulate 8 2 2 [Instr ''A'' 1 4, Instr ''A'' 1 4])) =
     [(- 1, 1, 2), (- 1, 1, 3)] \<and>
   active_list (projr (simulate 8 2 2 [Instr ''A'' 1 4, Instr ''A'' 1 4])) = [] \<and>
   map_sum id inactive_list (promote (- 1) (projr (simulate 8 2 2 [Instr ''A'' 1 4, Instr ''A'' 1 4])))
     = Inr [(- 1, 1, 3)] \<and>
   map_sum id active_list (promote (- 1) (projr (simulate 8 2 2 [Instr ''A'' 1 4, Instr ''A'' 1 4])))
     = Inr [(- 1, 1, 2)]"
  by code_simp

end
